theory Spec2Isabelle
  imports Complex_Main
begin

section \<open>Python values and exceptions\<close>

text \<open>
  The expense engine works on untyped records (Python dicts).  A raw value is what a
  decoded request body or a caller hands over: \<open>None\<close>, an integer, a string, a list, or
  a \<open>datetime\<close> object.  Binary floats, booleans and \<open>Decimal\<close> objects are not among the
  raw values of this model; a float amount reaches the code below through its text
  (\<open>str(x)\<close>), which is the string used here.  Strings are lists of characters.
\<close>

record datetime =
  year :: int
  month :: int
  day :: int
  hour :: int
  minute :: int
  second :: int
  microsecond :: int

datatype pyval =
    PNone
  | PInt int
  | PStr string
  | PList "pyval list"
  | PDateTime datetime

text \<open>
  A \<open>Decimal\<close> is finite (signed coefficient \<open>c\<close> and exponent \<open>e\<close>, value \<open>c * 10^e\<close>), an
  infinity (\<open>True\<close> for the negative one) or a NaN (\<open>True\<close> for a signalling one).  The sign
  of a zero and the payload of a NaN are not kept: no operation below reads them.
\<close>

datatype decimal =
    Fin int int
  | Infinity bool
  | NaN bool

text \<open>
  The reasons \<open>InvalidExpenseError\<close> is raised with, one per message of the validator.
\<close>

datatype invalid_reason =
    MissingField string
  | AmountNotPositive
  | InvalidAmountFormat
  | InvalidDateFormat
  | DescriptionTooLong
  | TagsNotList
  | TooManyTags
  | TagNotString
  | EmptyTag

text \<open>
  Every exception the modelled code can raise or let through.  \<open>InvalidOperation\<close> and
  \<open>DivisionByZero\<close> are the exceptions of Python's \<open>decimal\<close> module: both derive from
  \<open>ArithmeticError\<close>, neither from \<open>ValueError\<close> nor from \<open>TypeError\<close>.
  The business exceptions are imported by the code from a module of their own and are
  taken to derive from \<open>Exception\<close> directly.
\<close>

datatype error =
    InvalidExpenseError invalid_reason
  | CategoryNotFoundError
  | BudgetLimitExceededError
  | InvalidOperation
  | DivisionByZero
  | ValueError
  | TypeError
  | KeyError string
  | AttributeError
  | RepositoryError string

text \<open>Sequencing: the first exception raised ends the computation.\<close>

definition ebind :: "error + 'a \<Rightarrow> ('a \<Rightarrow> error + 'b) \<Rightarrow> error + 'b" where
  "ebind m f = (case m of Inl err \<Rightarrow> Inl err | Inr x \<Rightarrow> f x)"

text \<open>A dict keeps its keys in insertion order; a store to a present key keeps its place.\<close>

type_synonym 'v pydict = "(string \<times> 'v) list"

fun dict_set :: "'k \<Rightarrow> 'v \<Rightarrow> ('k \<times> 'v) list \<Rightarrow> ('k \<times> 'v) list" where
  "dict_set k v [] = [(k, v)]"
| "dict_set k v ((k', v') # d) = (if k = k' then (k, v) # d else (k', v') # dict_set k v d)"

definition getitem :: "'v pydict \<Rightarrow> string \<Rightarrow> error + 'v" where
  "getitem d k = (case map_of d k of None \<Rightarrow> Inl (KeyError k) | Some v \<Rightarrow> Inr v)"

section \<open>Strings\<close>

definition is_space :: "char \<Rightarrow> bool" where
  "is_space c = (of_char c \<in> {9, 10, 11, 12, 13, 28, 29, 30, 31, 32 :: nat})"

definition is_digit :: "char \<Rightarrow> bool" where
  "is_digit c = (48 \<le> (of_char c :: nat) \<and> (of_char c :: nat) \<le> 57)"

definition to_lower :: "char \<Rightarrow> char" where
  "to_lower c = (if 65 \<le> (of_char c :: nat) \<and> (of_char c :: nat) \<le> 90
                 then char_of (of_char c + (32 :: nat)) else c)"

definition strip :: "string \<Rightarrow> string" where
  "strip s = rev (dropWhile is_space (rev (dropWhile is_space s)))"

definition lower :: "string \<Rightarrow> string" where
  "lower s = map to_lower s"

definition int_of_digits :: "string \<Rightarrow> int" where
  "int_of_digits ds = foldl (\<lambda>a c. 10 * a + (of_char c - 48)) 0 ds"

section \<open>Decimal: construction from text\<close>

text \<open>
  \<open>Decimal(s)\<close> for a string: surrounding whitespace is stripped, underscores are dropped,
  and the rest must be an optional sign followed by a number (digits with an optional
  point and an optional exponent, at least one digit), an infinity or a NaN, in any
  letter case.  The value is exact: the constructor does not round.  \<open>None\<close> is the
  syntax error, which the constructor raises as \<open>InvalidOperation\<close>.
\<close>

definition parse_sign :: "string \<Rightarrow> bool \<times> string" where
  "parse_sign s =
     (case s of
        [] \<Rightarrow> (False, [])
      | c # r \<Rightarrow> if c = CHR ''-'' then (True, r)
                 else if c = CHR ''+'' then (False, r) else (False, s))"

definition parse_exponent :: "string \<Rightarrow> int option" where
  "parse_exponent s =
     (case s of
        [] \<Rightarrow> Some 0
      | c # r \<Rightarrow>
          if c = CHR ''e'' then
            (let (neg, ds) = parse_sign r in
             if ds \<noteq> [] \<and> list_all is_digit ds
             then Some (if neg then - int_of_digits ds else int_of_digits ds)
             else None)
          else None)"

definition parse_number :: "string \<Rightarrow> (int \<times> int) option" where
  "parse_number s =
     (let ip = takeWhile is_digit s;
          r1 = dropWhile is_digit s;
          (fp, r2) = (case r1 of
                        [] \<Rightarrow> ([], [])
                      | c # r \<Rightarrow> if c = CHR ''.''
                                 then (takeWhile is_digit r, dropWhile is_digit r)
                                 else ([], r1))
      in if ip = [] \<and> fp = [] then None
         else (case parse_exponent r2 of
                 None \<Rightarrow> None
               | Some x \<Rightarrow> Some (int_of_digits (ip @ fp), x - int (length fp))))"

definition parse_special :: "bool \<Rightarrow> string \<Rightarrow> decimal option" where
  "parse_special neg s =
     (if s = ''inf'' \<or> s = ''infinity'' then Some (Infinity neg)
      else if take 3 s = ''nan'' \<and> list_all is_digit (drop 3 s) then Some (NaN False)
      else if take 4 s = ''snan'' \<and> list_all is_digit (drop 4 s) then Some (NaN True)
      else None)"

definition decimal_of_string :: "string \<Rightarrow> decimal option" where
  "decimal_of_string s =
     (let (neg, r) = parse_sign (filter (\<lambda>c. c \<noteq> CHR ''_'') (strip s));
          l = lower r
      in case parse_number l of
           Some (n, x) \<Rightarrow> Some (Fin (if neg then - n else n) x)
         | None \<Rightarrow> parse_special neg l)"

text \<open>
  \<open>Decimal(str(v))\<close>, as the validator, the normalizer and the analyzer build an amount.
  The text of an integer is its decimal numeral, so the result is that integer (the
  limit recent Python versions put on the length of an integer's text is not
  modelled); the texts of \<open>None\<close>, of a list and of a \<open>datetime\<close> are no numerals.
\<close>

fun decimal_of_str :: "pyval \<Rightarrow> error + decimal" where
  "decimal_of_str (PInt n) = Inr (Fin n 0)"
| "decimal_of_str (PStr s) =
     (case decimal_of_string s of None \<Rightarrow> Inl InvalidOperation | Some d \<Rightarrow> Inr d)"
| "decimal_of_str PNone = Inl InvalidOperation"
| "decimal_of_str (PList xs) = Inl InvalidOperation"
| "decimal_of_str (PDateTime t) = Inl InvalidOperation"

text \<open>
  \<open>Decimal(v)\<close> without \<open>str\<close>, as the budget check builds the candidate amount: \<open>None\<close>
  and a \<open>datetime\<close> are a \<open>TypeError\<close>; a list is read as a (sign, digits, exponent)
  triple whose digits must be a tuple, so every list of raw values is a \<open>ValueError\<close>.
\<close>

fun decimal_of :: "pyval \<Rightarrow> error + decimal" where
  "decimal_of (PInt n) = Inr (Fin n 0)"
| "decimal_of (PStr s) =
     (case decimal_of_string s of None \<Rightarrow> Inl InvalidOperation | Some d \<Rightarrow> Inr d)"
| "decimal_of PNone = Inl TypeError"
| "decimal_of (PList xs) = Inl ValueError"
| "decimal_of (PDateTime t) = Inl TypeError"

section \<open>Decimal: comparison\<close>

text \<open>
  Ordering comparisons are exact; with a NaN operand they raise \<open>InvalidOperation\<close>.
\<close>

definition fin_less :: "int \<Rightarrow> int \<Rightarrow> int \<Rightarrow> int \<Rightarrow> bool" where
  "fin_less c1 e1 c2 e2 =
     (let m = min e1 e2 in c1 * 10 ^ nat (e1 - m) < c2 * 10 ^ nat (e2 - m))"

fun dec_lt :: "decimal \<Rightarrow> decimal \<Rightarrow> error + bool" where
  "dec_lt (NaN s) y = Inl InvalidOperation"
| "dec_lt x (NaN s) = Inl InvalidOperation"
| "dec_lt (Infinity a) (Infinity b) = Inr (a \<and> \<not> b)"
| "dec_lt (Infinity a) (Fin c e) = Inr a"
| "dec_lt (Fin c e) (Infinity b) = Inr (\<not> b)"
| "dec_lt (Fin c1 e1) (Fin c2 e2) = Inr (fin_less c1 e1 c2 e2)"

definition dec_gt :: "decimal \<Rightarrow> decimal \<Rightarrow> error + bool" where
  "dec_gt x y = dec_lt y x"

definition dec_le :: "decimal \<Rightarrow> decimal \<Rightarrow> error + bool" where
  "dec_le x y = (case dec_lt y x of Inl err \<Rightarrow> Inl err | Inr b \<Rightarrow> Inr (\<not> b))"

section \<open>ExpenseValidator\<close>

text \<open>
  \<open>datetime.fromisoformat\<close> belongs to the Python library; it is a parameter \<open>fromiso\<close> of
  the functions that call it, \<open>None\<close> standing for the \<open>ValueError\<close> it raises.
\<close>

type_synonym isoparser = "string \<Rightarrow> datetime option"

definition REQUIRED_FIELDS :: "string list" where
  "REQUIRED_FIELDS = [''amount'', ''category'', ''date'', ''description'']"

definition MAX_DESCRIPTION_LENGTH :: nat where
  "MAX_DESCRIPTION_LENGTH = 500"

definition MAX_TAGS :: nat where
  "MAX_TAGS = 10"

fun check_required :: "string list \<Rightarrow> pyval pydict \<Rightarrow> error + unit" where
  "check_required [] d = Inr ()"
| "check_required (f # fs) d =
     (if map_of d f = None then Inl (InvalidExpenseError (MissingField f))
      else check_required fs d)"

text \<open>
  The amount check.  The \<open>try\<close> body builds the decimal and compares it with 0; the
  handler \<open>except (ValueError, TypeError)\<close> turns exactly these two exceptions into
  "Invalid amount format" and lets every other one through.
\<close>

definition amount_try_body :: "pyval \<Rightarrow> error + unit" where
  "amount_try_body v =
     (case decimal_of_str v of
        Inl err \<Rightarrow> Inl err
      | Inr amount \<Rightarrow>
          (case dec_le amount (Fin 0 0) of
             Inl err \<Rightarrow> Inl err
           | Inr b \<Rightarrow> if b then Inl (InvalidExpenseError AmountNotPositive) else Inr ()))"

fun except_ValueError_TypeError :: "error \<Rightarrow> error \<Rightarrow> error" where
  "except_ValueError_TypeError h ValueError = h"
| "except_ValueError_TypeError h TypeError = h"
| "except_ValueError_TypeError h err = err"

definition check_amount :: "pyval \<Rightarrow> error + unit" where
  "check_amount v =
     (case amount_try_body v of
        Inl err \<Rightarrow> Inl (except_ValueError_TypeError (InvalidExpenseError InvalidAmountFormat) err)
      | Inr u \<Rightarrow> Inr u)"

fun check_date :: "isoparser \<Rightarrow> pyval \<Rightarrow> error + unit" where
  "check_date fromiso (PStr s) =
     (case fromiso s of None \<Rightarrow> Inl (InvalidExpenseError InvalidDateFormat) | Some t \<Rightarrow> Inr ())"
| "check_date fromiso v = Inr ()"

text \<open>\<open>len(v)\<close>: defined on strings and lists, a \<open>TypeError\<close> on the other raw values.\<close>

fun py_len :: "pyval \<Rightarrow> error + nat" where
  "py_len (PStr s) = Inr (length s)"
| "py_len (PList xs) = Inr (length xs)"
| "py_len v = Inl TypeError"

definition check_description :: "pyval \<Rightarrow> error + unit" where
  "check_description v =
     (case py_len v of
        Inl err \<Rightarrow> Inl err
      | Inr n \<Rightarrow> if n > MAX_DESCRIPTION_LENGTH
                 then Inl (InvalidExpenseError DescriptionTooLong) else Inr ())"

fun check_each_tag :: "pyval list \<Rightarrow> error + unit" where
  "check_each_tag [] = Inr ()"
| "check_each_tag (PStr s # ts) =
     (if strip s = [] then Inl (InvalidExpenseError EmptyTag) else check_each_tag ts)"
| "check_each_tag (v # ts) = Inl (InvalidExpenseError TagNotString)"

fun check_tags :: "pyval option \<Rightarrow> error + unit" where
  "check_tags None = Inr ()"
| "check_tags (Some (PList ts)) =
     (if length ts > MAX_TAGS then Inl (InvalidExpenseError TooManyTags)
      else check_each_tag ts)"
| "check_tags (Some v) = Inl (InvalidExpenseError TagsNotList)"

definition validate_expense_data :: "isoparser \<Rightarrow> pyval pydict \<Rightarrow> error + unit" where
  "validate_expense_data fromiso d =
     (case check_required REQUIRED_FIELDS d of
        Inl err \<Rightarrow> Inl err
      | Inr u \<Rightarrow>
     (case getitem d ''amount'' of
        Inl err \<Rightarrow> Inl err
      | Inr a \<Rightarrow>
     (case check_amount a of
        Inl err \<Rightarrow> Inl err
      | Inr u \<Rightarrow>
     (case getitem d ''date'' of
        Inl err \<Rightarrow> Inl err
      | Inr dt \<Rightarrow>
     (case check_date fromiso dt of
        Inl err \<Rightarrow> Inl err
      | Inr u \<Rightarrow>
     (case getitem d ''description'' of
        Inl err \<Rightarrow> Inl err
      | Inr ds \<Rightarrow>
     (case check_description ds of
        Inl err \<Rightarrow> Inl err
      | Inr u \<Rightarrow> check_tags (map_of d ''tags''))))))))"

text \<open>The failure kind \<open>InvalidAmount\<close> of the specification: either amount message.\<close>

fun is_InvalidAmount :: "error \<Rightarrow> bool" where
  "is_InvalidAmount (InvalidExpenseError AmountNotPositive) = True"
| "is_InvalidAmount (InvalidExpenseError InvalidAmountFormat) = True"
| "is_InvalidAmount err = False"

section \<open>Decimal: arithmetic in the default context\<close>

text \<open>
  No code of the repository changes the arithmetic context, so results are rounded to
  the default precision of 28 significant digits, ties to even.  The exponent limits of
  the context (\<open>Emax = 999999\<close>, \<open>Emin = -999999\<close>) are not modelled.
\<close>

text \<open>The number of decimal digits of a coefficient (of its absolute value \<open>n\<close>).\<close>

function ndigits :: "int \<Rightarrow> nat" where
  "ndigits n = (if n < 10 then 1 else Suc (ndigits (n div 10)))"
  by pat_completeness auto
termination
  by (relation "measure nat") auto

declare ndigits.simps [simp del]

definition context_prec :: nat where
  "context_prec = 28"

text \<open>\<open>n / 10^k\<close> rounded to an integer, a tie going to the even neighbour.\<close>

definition round_half_even :: "int \<Rightarrow> nat \<Rightarrow> int" where
  "round_half_even n k =
     (let q = n div 10 ^ k; r = n mod 10 ^ k
      in if 10 ^ k < 2 * r \<or> (2 * r = 10 ^ k \<and> odd q) then q + 1 else q)"

text \<open>
  The context's rounding of a finite result: a coefficient of more than 28 digits
  loses its last digits; when rounding up carries into a 29th digit, that digit goes too.
\<close>

definition dec_fix :: "int \<Rightarrow> int \<Rightarrow> decimal" where
  "dec_fix c e =
     (let n = \<bar>c\<bar>; d = ndigits n
      in if d \<le> context_prec then Fin c e
         else (let k = d - context_prec; q = round_half_even n k
               in if context_prec < ndigits q
                  then Fin (sgn c * (q div 10)) (e + int k + 1)
                  else Fin (sgn c * q) (e + int k)))"

fun is_snan :: "decimal \<Rightarrow> bool" where
  "is_snan (NaN s) = s"
| "is_snan d = False"

fun is_nan :: "decimal \<Rightarrow> bool" where
  "is_nan (NaN s) = True"
| "is_nan d = False"

text \<open>
  \<open>x + y\<close>: a signalling NaN raises, a quiet NaN is the result, infinities of opposite
  sign raise; the sum of two finite values is computed exactly at the smaller exponent
  and then rounded by the context.
\<close>

fun dec_add :: "decimal \<Rightarrow> decimal \<Rightarrow> error + decimal" where
  "dec_add (Fin c1 e1) (Fin c2 e2) =
     (let m = min e1 e2
      in Inr (dec_fix (c1 * 10 ^ nat (e1 - m) + c2 * 10 ^ nat (e2 - m)) m))"
| "dec_add x y =
     (if is_snan x \<or> is_snan y then Inl InvalidOperation
      else if is_nan x \<or> is_nan y then Inr (NaN False)
      else (case (x, y) of
              (Infinity a, Infinity b) \<Rightarrow> if a = b then Inr (Infinity a) else Inl InvalidOperation
            | (Infinity a, _) \<Rightarrow> Inr (Infinity a)
            | (_, Infinity b) \<Rightarrow> Inr (Infinity b)
            | _ \<Rightarrow> Inl InvalidOperation))"

text \<open>
  \<open>x * n\<close> for an integer \<open>n\<close>: the exact product, rounded by the context.
\<close>

fun dec_mul_int :: "decimal \<Rightarrow> int \<Rightarrow> error + decimal" where
  "dec_mul_int (Fin c e) n = Inr (dec_fix (c * n) e)"
| "dec_mul_int (NaN s) n = (if s then Inl InvalidOperation else Inr (NaN False))"
| "dec_mul_int (Infinity a) n =
     (if n = 0 then Inl InvalidOperation else Inr (Infinity (a \<noteq> (n < 0))))"

text \<open>
  \<open>x / n\<close> for an integer \<open>n\<close>.  Dividing a nonzero value by zero raises
  \<open>DivisionByZero\<close>, zero by zero raises \<open>InvalidOperation\<close>.  Otherwise the quotient is
  computed to one digit more than the precision, a nonzero remainder is remembered in
  the last digit, an exact quotient sheds trailing zeros down to the dividend's
  exponent, and the context rounds the result.
\<close>

function strip_zeros :: "int \<Rightarrow> int \<Rightarrow> int \<Rightarrow> int \<times> int" where
  "strip_zeros q x ideal =
     (if x < ideal \<and> q mod 10 = 0 then strip_zeros (q div 10) (x + 1) ideal else (q, x))"
  by pat_completeness auto
termination
  by (relation "measure (\<lambda>(q, x, ideal). nat (ideal - x))") auto

declare strip_zeros.simps [simp del]

definition fin_div :: "int \<Rightarrow> int \<Rightarrow> int \<Rightarrow> decimal" where
  "fin_div c e n =
     (let a = \<bar>c\<bar>; b = \<bar>n\<bar>;
          shift = int (ndigits b) - int (ndigits a) + int context_prec + 1;
          x = e - shift;
          (q, r) = (if 0 \<le> shift then ((a * 10 ^ nat shift) div b, (a * 10 ^ nat shift) mod b)
                    else (a div (b * 10 ^ nat (- shift)), a mod (b * 10 ^ nat (- shift))));
          (q', x') = (if r \<noteq> 0 then (if q mod 5 = 0 then q + 1 else q, x)
                      else strip_zeros q x e)
      in dec_fix (sgn c * sgn n * q') x')"

fun dec_div_int :: "decimal \<Rightarrow> int \<Rightarrow> error + decimal" where
  "dec_div_int (NaN s) n = (if s then Inl InvalidOperation else Inr (NaN False))"
| "dec_div_int (Infinity a) n = Inr (Infinity (a \<noteq> (n < 0)))"
| "dec_div_int (Fin c e) n =
     (if n = 0 then (if c = 0 then Inl InvalidOperation else Inl DivisionByZero)
      else if c = 0 then Inr (dec_fix 0 e)
      else Inr (fin_div c e n))"

text \<open>
  \<open>round(x, 2)\<close> on a \<open>Decimal\<close> is \<open>x.quantize(Decimal('0.01'))\<close> with the context's
  rounding (ties to even).  It raises \<open>InvalidOperation\<close> on an infinity and when the
  result would need more digits than the precision.
\<close>

definition rescale2 :: "int \<Rightarrow> int \<Rightarrow> int" where
  "rescale2 c e =
     (if - 2 \<le> e then c * 10 ^ nat (e + 2)
      else sgn c * round_half_even \<bar>c\<bar> (nat (- 2 - e)))"

fun py_round2 :: "decimal \<Rightarrow> error + decimal" where
  "py_round2 (NaN s) = (if s then Inl InvalidOperation else Inr (NaN False))"
| "py_round2 (Infinity a) = Inl InvalidOperation"
| "py_round2 (Fin c e) =
     (if c = 0 then Inr (Fin 0 (- 2))
      else if int context_prec < int (ndigits \<bar>c\<bar>) + e + 2 then Inl InvalidOperation
      else if context_prec < ndigits \<bar>rescale2 c e\<bar> then Inl InvalidOperation
      else Inr (Fin (rescale2 c e) (- 2)))"

section \<open>ExpenseService\<close>

text \<open>
  The values of a processed record: the raw values copied from the input and the
  \<open>Decimal\<close> the normalizer stores under \<open>amount\<close>.
\<close>

datatype cval = Raw pyval | Dec decimal

text \<open>
  \<open>[tag.strip().lower() for tag in tags]\<close>: a list is walked element by element
  (\<open>AttributeError\<close> on an element that is no string), a string character by character,
  and the other raw values cannot be iterated.
\<close>

fun normalize_each :: "pyval list \<Rightarrow> error + pyval list" where
  "normalize_each [] = Inr []"
| "normalize_each (PStr s # ts) =
     (case normalize_each ts of
        Inl err \<Rightarrow> Inl err
      | Inr r \<Rightarrow> Inr (PStr (lower (strip s)) # r))"
| "normalize_each (v # ts) = Inl AttributeError"

fun normalize_tags :: "pyval \<Rightarrow> error + pyval list" where
  "normalize_tags (PList ts) = normalize_each ts"
| "normalize_tags (PStr s) = normalize_each (map (\<lambda>c. PStr [c]) s)"
| "normalize_tags v = Inl TypeError"

fun normalize_date :: "isoparser \<Rightarrow> pyval \<Rightarrow> error + pyval" where
  "normalize_date fromiso (PStr s) =
     (case fromiso s of None \<Rightarrow> Inl ValueError | Some t \<Rightarrow> Inr (PDateTime t))"
| "normalize_date fromiso v = Inr v"

definition process_expense_data :: "isoparser \<Rightarrow> pyval pydict \<Rightarrow> error + cval pydict" where
  "process_expense_data fromiso expense_data =
     (let processed = map (\<lambda>(k, v). (k, Raw v)) expense_data in
      case getitem expense_data ''amount'' of
        Inl err \<Rightarrow> Inl err
      | Inr a \<Rightarrow>
     (case decimal_of_str a of
        Inl err \<Rightarrow> Inl err
      | Inr x \<Rightarrow>
     (case py_round2 x of
        Inl err \<Rightarrow> Inl err
      | Inr amount \<Rightarrow>
     (let processed = dict_set ''amount'' (Dec amount) processed in
      case getitem expense_data ''date'' of
        Inl err \<Rightarrow> Inl err
      | Inr dt \<Rightarrow>
     (case normalize_date fromiso dt of
        Inl err \<Rightarrow> Inl err
      | Inr dt' \<Rightarrow>
     (let processed = dict_set ''date'' (Raw dt') processed in
      case map_of expense_data ''tags'' of
        None \<Rightarrow> Inr processed
      | Some tags \<Rightarrow>
          (case normalize_tags tags of
             Inl err \<Rightarrow> Inl err
           | Inr ts \<Rightarrow> Inr (dict_set ''tags'' (Raw (PList ts)) processed))))))))"

text \<open>
  The category as the repository returns it.  \<open>if category.budget_limit:\<close> tests the
  truth value of the limit: \<open>None\<close> is false, and a \<open>Decimal\<close> is true when it is not
  zero (\<open>dec_bool\<close>).
\<close>

record category =
  cat_name :: string
  budget_limit :: "decimal option"

fun dec_bool :: "decimal \<Rightarrow> bool" where
  "dec_bool (Fin c e) = (c \<noteq> 0)"
| "dec_bool d = True"


text \<open>
  The repository is a collaborator outside the repository's sources: its three methods
  are parameters, each able to fail with an error of its own.  The calls the service
  makes are recorded in order.
\<close>

record 'e repository =
  get_category :: "string \<Rightarrow> pyval \<Rightarrow> error + category option"
  get_category_total :: "string \<Rightarrow> pyval \<Rightarrow> datetime \<Rightarrow> error + decimal"
  create :: "string \<Rightarrow> cval pydict \<Rightarrow> error + 'e"

datatype call =
    GetCategory string pyval
  | GetCategoryTotal string pyval datetime
  | Create string "cval pydict"

text \<open>
  \<open>current_total + Decimal(expense_data['amount']) > category.budget_limit\<close>
\<close>

definition over_limit :: "decimal \<Rightarrow> pyval pydict \<Rightarrow> decimal \<Rightarrow> error + bool" where
  "over_limit current_total expense_data limit =
     (case getitem expense_data ''amount'' of
        Inl err \<Rightarrow> Inl err
      | Inr a \<Rightarrow>
     (case decimal_of a of
        Inl err \<Rightarrow> Inl err
      | Inr amount \<Rightarrow>
     (case dec_add current_total amount of
        Inl err \<Rightarrow> Inl err
      | Inr would_be \<Rightarrow> dec_gt would_be limit)))"

definition check_budget_limits ::
  "'e repository \<Rightarrow> datetime \<Rightarrow> string \<Rightarrow> pyval pydict \<Rightarrow> (error + unit) \<times> call list" where
  "check_budget_limits repo now user_id expense_data =
     (case getitem expense_data ''category'' of
        Inl err \<Rightarrow> (Inl err, [])
      | Inr cat \<Rightarrow>
     (case get_category repo user_id cat of
        Inl err \<Rightarrow> (Inl err, [GetCategory user_id cat])
      | Inr None \<Rightarrow> (Inl CategoryNotFoundError, [GetCategory user_id cat])
      | Inr (Some category) \<Rightarrow>
          (case budget_limit category of
             None \<Rightarrow> (Inr (), [GetCategory user_id cat])
           | Some limit \<Rightarrow>
               if dec_bool limit then
                 (let start = now\<lparr>day := 1\<rparr>;
                      calls = [GetCategory user_id cat, GetCategoryTotal user_id cat start]
                  in case get_category_total repo user_id cat start of
                       Inl err \<Rightarrow> (Inl err, calls)
                     | Inr current_total \<Rightarrow>
                         (case over_limit current_total expense_data limit of
                            Inl err \<Rightarrow> (Inl err, calls)
                          | Inr b \<Rightarrow>
                              (if b then Inl BudgetLimitExceededError else Inr (), calls)))
               else (Inr (), [GetCategory user_id cat]))))"

definition create_expense ::
  "isoparser \<Rightarrow> 'e repository \<Rightarrow> datetime \<Rightarrow> string \<Rightarrow> pyval pydict
     \<Rightarrow> (error + 'e) \<times> call list" where
  "create_expense fromiso repo now user_id expense_data =
     (case validate_expense_data fromiso expense_data of
        Inl err \<Rightarrow> (Inl err, [])
      | Inr u \<Rightarrow>
     (case check_budget_limits repo now user_id expense_data of
        (Inl err, calls) \<Rightarrow> (Inl err, calls)
      | (Inr u, calls) \<Rightarrow>
     (case process_expense_data fromiso expense_data of
        Inl err \<Rightarrow> (Inl err, calls)
      | Inr processed \<Rightarrow>
          (create repo user_id processed, calls @ [Create user_id processed]))))"

section \<open>The normalizer on the heap\<close>

text \<open>
  Whether \<open>_process_expense_data\<close> changes the record of its caller depends on which
  objects it writes to, so here dicts and lists are objects in a heap and a value
  refers to them by address.  The immutable values (\<open>None\<close>, integers, strings,
  \<open>datetime\<close> and \<open>Decimal\<close> objects) are held in place.  The heap is the list of its
  objects, an address is a position in it, and a new object is appended.
\<close>

datatype hval =
    HNone
  | HInt int
  | HStr string
  | HDateTime datetime
  | HDec decimal
  | HRef nat

datatype obj =
    ODict "(string \<times> hval) list"
  | OList "hval list"

type_synonym heap = "obj list"

definition lookup :: "heap \<Rightarrow> nat \<Rightarrow> obj option" where
  "lookup h a = (if a < length h then Some (h ! a) else None)"

text \<open>\<open>Decimal(str(v))\<close>; the text of a \<open>Decimal\<close> reads back as that \<open>Decimal\<close>.\<close>

fun hdecimal_of_str :: "hval \<Rightarrow> error + decimal" where
  "hdecimal_of_str (HInt n) = Inr (Fin n 0)"
| "hdecimal_of_str (HStr s) =
     (case decimal_of_string s of None \<Rightarrow> Inl InvalidOperation | Some d \<Rightarrow> Inr d)"
| "hdecimal_of_str (HDec d) = Inr d"
| "hdecimal_of_str v = Inl InvalidOperation"

fun hnormalize_date :: "isoparser \<Rightarrow> hval \<Rightarrow> error + hval" where
  "hnormalize_date fromiso (HStr s) =
     (case fromiso s of None \<Rightarrow> Inl ValueError | Some t \<Rightarrow> Inr (HDateTime t))"
| "hnormalize_date fromiso v = Inr v"

text \<open>
  What \<open>for tag in tags\<close> walks over: the elements of a list, the keys of a dict, the
  characters of a string; the other values cannot be iterated.
\<close>

fun iter_items :: "heap \<Rightarrow> hval \<Rightarrow> error + hval list" where
  "iter_items h (HStr s) = Inr (map (\<lambda>c. HStr [c]) s)"
| "iter_items h (HRef a) =
     (case lookup h a of
        None \<Rightarrow> Inl TypeError
      | Some (OList xs) \<Rightarrow> Inr xs
      | Some (ODict d) \<Rightarrow> Inr (map (\<lambda>(k, v). HStr k) d))"
| "iter_items h v = Inl TypeError"

fun hnormalize_each :: "hval list \<Rightarrow> error + hval list" where
  "hnormalize_each [] = Inr []"
| "hnormalize_each (HStr s # ts) =
     (case hnormalize_each ts of
        Inl err \<Rightarrow> Inl err
      | Inr r \<Rightarrow> Inr (HStr (lower (strip s)) # r))"
| "hnormalize_each (v # ts) = Inl AttributeError"

text \<open>
  \<open>expense_data.copy()\<close> allocates the new dict \<open>processed\<close> at the first free address;
  the three stores \<open>processed[...] = ...\<close> write to the object at that address, and the
  list comprehension allocates the new list of tags.  The function returns the address
  of \<open>processed\<close>, or the exception, together with the heap it leaves behind.  (An
  argument that is a list also has a \<open>copy\<close> method; the subscript then fails.  An address
  outside the heap cannot arise.)
\<close>

definition process_expense_data_heap ::
  "isoparser \<Rightarrow> heap \<Rightarrow> nat \<Rightarrow> (error + nat) \<times> heap" where
  "process_expense_data_heap fromiso h expense_data =
     (case lookup h expense_data of
        None \<Rightarrow> (Inl TypeError, h)
      | Some (OList xs) \<Rightarrow> (Inl TypeError, h @ [OList xs])
      | Some (ODict d) \<Rightarrow>
          (let processed = length h;
               h1 = h @ [ODict d]
           in case ebind (getitem d ''amount'') (\<lambda>v. ebind (hdecimal_of_str v) py_round2) of
                Inl err \<Rightarrow> (Inl err, h1)
              | Inr amount \<Rightarrow>
          (let d1 = dict_set ''amount'' (HDec amount) d;
               h2 = h1[processed := ODict d1]
           in case ebind (getitem d1 ''date'') (hnormalize_date fromiso) of
                Inl err \<Rightarrow> (Inl err, h2)
              | Inr dt \<Rightarrow>
          (let d2 = dict_set ''date'' dt d1;
               h3 = h2[processed := ODict d2]
           in case map_of d2 ''tags'' of
                None \<Rightarrow> (Inr processed, h3)
              | Some tags \<Rightarrow>
                  (case ebind (iter_items h3 tags) hnormalize_each of
                     Inl err \<Rightarrow> (Inl err, h3)
                   | Inr ts \<Rightarrow>
                       (let h4 = h3 @ [OList ts];
                            d3 = dict_set ''tags'' (HRef (length h3)) d2
                        in (Inr processed, h4[processed := ODict d3])))))))"

text \<open>
  Reading a heap value back as a value of the first model: an immutable value is itself,
  a reference to a list of immutable values is that list.  \<open>raw_dict\<close> reads a dict of
  raw values, \<open>cval_dict\<close> a processed dict, whose amount is a \<open>Decimal\<close>.
\<close>

fun flat :: "hval \<Rightarrow> pyval option" where
  "flat HNone = Some PNone"
| "flat (HInt n) = Some (PInt n)"
| "flat (HStr s) = Some (PStr s)"
| "flat (HDateTime t) = Some (PDateTime t)"
| "flat (HDec d) = None"
| "flat (HRef a) = None"

fun flat_list :: "hval list \<Rightarrow> pyval list option" where
  "flat_list [] = Some []"
| "flat_list (v # vs) =
     (case flat v of
        None \<Rightarrow> None
      | Some x \<Rightarrow> (case flat_list vs of None \<Rightarrow> None | Some xs \<Rightarrow> Some (x # xs)))"

fun raw_of :: "heap \<Rightarrow> hval \<Rightarrow> pyval option" where
  "raw_of h (HRef a) =
     (case lookup h a of
        Some (OList xs) \<Rightarrow> (case flat_list xs of None \<Rightarrow> None | Some ys \<Rightarrow> Some (PList ys))
      | _ \<Rightarrow> None)"
| "raw_of h v = flat v"

fun cval_of :: "heap \<Rightarrow> hval \<Rightarrow> cval option" where
  "cval_of h (HDec d) = Some (Dec d)"
| "cval_of h v = (case raw_of h v of None \<Rightarrow> None | Some x \<Rightarrow> Some (Raw x))"

fun read_dict :: "(hval \<Rightarrow> 'v option) \<Rightarrow> (string \<times> hval) list \<Rightarrow> 'v pydict option" where
  "read_dict f [] = Some []"
| "read_dict f ((k, v) # d) =
     (case f v of
        None \<Rightarrow> None
      | Some x \<Rightarrow> (case read_dict f d of None \<Rightarrow> None | Some r \<Rightarrow> Some ((k, x) # r)))"

definition raw_dict :: "heap \<Rightarrow> (string \<times> hval) list \<Rightarrow> pyval pydict option" where
  "raw_dict h d = read_dict (raw_of h) d"

definition cval_dict :: "heap \<Rightarrow> (string \<times> hval) list \<Rightarrow> cval pydict option" where
  "cval_dict h d = read_dict (cval_of h) d"

section \<open>MonthlySummaryEngine\<close>

text \<open>
  A persisted expense as the summary reads it: \<open>expense.amount\<close> (a \<open>Decimal\<close>),
  \<open>expense.category\<close>, \<open>expense.tags\<close> and \<open>expense.date\<close>.
\<close>

record expense =
  e_amount :: decimal
  e_category :: string
  e_tags :: "string list"
  e_date :: datetime

record summary =
  s_total :: decimal
  s_categories :: "(string \<times> decimal) list"
  s_tags :: "(string \<times> decimal) list"
  s_daily_totals :: "(string \<times> decimal) list"
  s_count :: nat

text \<open>
  \<open>if k not in d: d[k] = Decimal('0.00')\<close> followed by \<open>d[k] += a\<close>.
\<close>

definition add_to :: "'k \<Rightarrow> decimal \<Rightarrow> ('k \<times> decimal) list \<Rightarrow> error + ('k \<times> decimal) list" where
  "add_to k a d =
     ebind (dec_add (case map_of d k of None \<Rightarrow> Fin 0 (- 2) | Some v \<Rightarrow> v) a)
       (\<lambda>v. Inr (dict_set k v d))"

fun add_to_each :: "'k list \<Rightarrow> decimal \<Rightarrow> ('k \<times> decimal) list \<Rightarrow> error + ('k \<times> decimal) list" where
  "add_to_each [] a d = Inr d"
| "add_to_each (k # ks) a d = ebind (add_to k a d) (add_to_each ks a)"

text \<open>\<open>strftime('%Y-%m-%d')\<close>: the year in four digits, month and day in two.\<close>

definition digit_char :: "int \<Rightarrow> char" where
  "digit_char n = char_of (48 + n)"

definition pad2 :: "int \<Rightarrow> string" where
  "pad2 n = [digit_char (n div 10 mod 10), digit_char (n mod 10)]"

definition strftime_ymd :: "datetime \<Rightarrow> string" where
  "strftime_ymd t =
     pad2 (year t div 100) @ pad2 (year t mod 100) @ ''-'' @ pad2 (month t) @ ''-'' @ pad2 (day t)"

definition summary_step :: "summary \<Rightarrow> expense \<Rightarrow> error + summary" where
  "summary_step s e =
     ebind (dec_add (s_total s) (e_amount e)) (\<lambda>t.
     ebind (add_to (e_category e) (e_amount e) (s_categories s)) (\<lambda>cs.
     ebind (add_to_each (e_tags e) (e_amount e) (s_tags s)) (\<lambda>ts.
     ebind (add_to (strftime_ymd (e_date e)) (e_amount e) (s_daily_totals s)) (\<lambda>ds.
     Inr (s\<lparr>s_total := t, s_categories := cs, s_tags := ts, s_daily_totals := ds\<rparr>)))))"

fun summary_loop :: "summary \<Rightarrow> expense list \<Rightarrow> error + summary" where
  "summary_loop s [] = Inr s"
| "summary_loop s (e # es) = ebind (summary_step s e) (\<lambda>s'. summary_loop s' es)"

definition generate_summary :: "expense list \<Rightarrow> error + summary" where
  "generate_summary expenses =
     summary_loop \<lparr>s_total = Fin 0 (- 2), s_categories = [], s_tags = [],
                   s_daily_totals = [], s_count = length expenses\<rparr> expenses"

section \<open>ExpenseProcessor: spending-pattern analysis\<close>


















section \<open>Reading the analysis\<close>

text \<open>
  The records the analyzer is meant for: the four keys present, an amount whose text is
  a finite decimal, and a category that can be a dict key.
\<close>

fun is_fin :: "decimal \<Rightarrow> bool" where
  "is_fin (Fin c e) = True"
| "is_fin d = False"


text \<open>
  The claim about unusual expenses in the specification's words: "each category's average
  (\<open>category_total / category_count\<close>)" within the analyzed set, and an expense is unusual
  when its "amount exceeds twice its own category's average".  Sums, quotient and
  product are those of \<open>Decimal\<close>; a sum runs over the expenses in list order, from
  \<open>Decimal('0.00')\<close>.
\<close>

definition amount_of :: "pyval pydict \<Rightarrow> error + decimal" where
  "amount_of ex = ebind (getitem ex ''amount'') decimal_of_str"

fun dec_sum_from :: "decimal \<Rightarrow> pyval pydict list \<Rightarrow> error + decimal" where
  "dec_sum_from acc [] = Inr acc"
| "dec_sum_from acc (ex # exs) =
     ebind (amount_of ex) (\<lambda>a. ebind (dec_add acc a) (\<lambda>acc'. dec_sum_from acc' exs))"

definition in_category :: "pyval \<Rightarrow> pyval pydict \<Rightarrow> bool" where
  "in_category cat ex = (map_of ex ''category'' = Some cat)"

definition category_mean :: "pyval pydict list \<Rightarrow> pyval \<Rightarrow> error + decimal" where
  "category_mean expenses cat =
     ebind (dec_sum_from (Fin 0 (- 2)) (filter (in_category cat) expenses)) (\<lambda>t.
     dec_div_int t (int (length (filter (in_category cat) expenses))))"

definition exceeds_twice_mean :: "pyval pydict list \<Rightarrow> pyval pydict \<Rightarrow> error + bool" where
  "exceeds_twice_mean expenses ex =
     ebind (amount_of ex) (\<lambda>a.
     ebind (getitem ex ''category'') (\<lambda>cat.
     ebind (category_mean expenses cat) (\<lambda>m.
     ebind (dec_mul_int m 2) (\<lambda>twice. dec_gt a twice))))"



section \<open>Reading the summary\<close>

text \<open>
  Amounts of persisted expenses are fixed-point decimals with exactly 2 fractional
  digits: a number of hundredths at exponent -2.
\<close>

fun is_cents :: "decimal \<Rightarrow> bool" where
  "is_cents (Fin c e) = (e = - 2)"
| "is_cents d = False"

fun cents_of :: "decimal \<Rightarrow> int" where
  "cents_of (Fin c e) = c"
| "cents_of d = 0"

definition total_cents :: "expense list \<Rightarrow> int" where
  "total_cents expenses = sum_list (map (\<lambda>e. cents_of (e_amount e)) expenses)"

definition dict_cents :: "(string \<times> decimal) list \<Rightarrow> int" where
  "dict_cents d = sum_list (map (\<lambda>(k, v). cents_of v) d)"

text \<open>
  An invariant of the summary loop, for the proofs below: every value of a dict is a
  number of hundredths of absolute value at most \<open>A\<close>.
\<close>

definition cents_within :: "int \<Rightarrow> (string \<times> decimal) list \<Rightarrow> bool" where
  "cents_within A d = list_all (\<lambda>(k, v). is_cents v \<and> \<bar>cents_of v\<bar> \<le> A) d"

section \<open>Reading the unusual-expense test in exact arithmetic\<close>

text \<open>
  The value of a finite \<open>Decimal\<close> as a real number, to measure what the context's
  rounding of a quotient and of a product loses.
\<close>

definition rval :: "int \<Rightarrow> int \<Rightarrow> real" where
  "rval c e = of_int c * 10 powi e"

text \<open>
  Expense records whose amount reads as a number of hundredths, that number, and per
  category the exact sum of hundredths and the number of expenses.  With these the test
  "amount exceeds twice the category's average" is \<open>2 * sum < amount * count\<close> in integers.
\<close>

definition has_cents :: "pyval pydict \<Rightarrow> bool" where
  "has_cents ex = (case amount_of ex of Inl err \<Rightarrow> False | Inr a \<Rightarrow> is_cents a)"

definition amount_cents :: "pyval pydict \<Rightarrow> int" where
  "amount_cents ex = (case amount_of ex of Inl err \<Rightarrow> 0 | Inr a \<Rightarrow> cents_of a)"

definition category_cents :: "pyval pydict list \<Rightarrow> pyval \<Rightarrow> int" where
  "category_cents expenses cat = sum_list (map amount_cents (filter (in_category cat) expenses))"

definition category_count :: "pyval pydict list \<Rightarrow> pyval \<Rightarrow> int" where
  "category_count expenses cat = int (length (filter (in_category cat) expenses))"

section \<open>The documented rounding and budget rules\<close>

text \<open>
  The specification's rounding rule for amounts, in its own words: "rounded to exactly 2
  fractional digits using round-half-up semantics".  A tie goes away from zero.
\<close>

definition round_half_up :: "int \<Rightarrow> nat \<Rightarrow> int" where
  "round_half_up n k =
     (let q = n div 10 ^ k; r = n mod 10 ^ k in if 10 ^ k \<le> 2 * r then q + 1 else q)"

definition spec_round2 :: "int \<Rightarrow> int \<Rightarrow> decimal" where
  "spec_round2 c e =
     Fin (if - 2 \<le> e then c * 10 ^ nat (e + 2)
          else sgn c * round_half_up \<bar>c\<bar> (nat (- 2 - e))) (- 2)"

text \<open>
  What "rounded to 2 places, ties to even" means for a coefficient \<open>c\<close> at exponent \<open>e\<close> and
  a number \<open>c'\<close> of hundredths: \<open>c'\<close> is a nearest multiple of 0.01, and the even one when
  two are equally near.
\<close>

definition nearest_even_cents :: "int \<Rightarrow> int \<Rightarrow> int \<Rightarrow> bool" where
  "nearest_even_cents c e c' =
     (if - 2 \<le> e then c' = c * 10 ^ nat (e + 2)
      else (let p = 10 ^ nat (- 2 - e)
            in 2 * \<bar>c' * p - c\<bar> \<le> p \<and> (2 * \<bar>c' * p - c\<bar> = p \<longrightarrow> even c')))"

text \<open>
  Calendar months: the first instant of the month of \<open>t\<close> and of the month after it, as
  \<open>calculate_monthly_summary\<close> computes a month's bounds.  Naive \<open>datetime\<close> values compare
  field by field.
\<close>

definition dt_fields :: "datetime \<Rightarrow> int list" where
  "dt_fields t = [year t, month t, day t, hour t, minute t, second t, microsecond t]"

fun lex_less :: "int list \<Rightarrow> int list \<Rightarrow> bool" where
  "lex_less (x # xs) (y # ys) = (x < y \<or> (x = y \<and> lex_less xs ys))"
| "lex_less xs ys = False"

definition dt_less :: "datetime \<Rightarrow> datetime \<Rightarrow> bool" where
  "dt_less a b = lex_less (dt_fields a) (dt_fields b)"

definition month_start :: "datetime \<Rightarrow> datetime" where
  "month_start t = \<lparr>year = year t, month = month t, day = 1, hour = 0, minute = 0,
                     second = 0, microsecond = 0\<rparr>"

definition next_month_start :: "datetime \<Rightarrow> datetime" where
  "next_month_start t =
     (if month t = 12
      then \<lparr>year = year t + 1, month = 1, day = 1, hour = 0, minute = 0, second = 0,
            microsecond = 0\<rparr>
      else \<lparr>year = year t, month = month t + 1, day = 1, hour = 0, minute = 0, second = 0,
            microsecond = 0\<rparr>)"

definition in_month_of :: "datetime \<Rightarrow> datetime \<Rightarrow> bool" where
  "in_month_of as_of t = (\<not> dt_less t (month_start as_of) \<and> dt_less t (next_month_start as_of))"

text \<open>
  Modelled from the spec: the persistence collaborator (\<open>ExpenseRepository\<close> and
  \<open>CategoryRepository\<close>), whose code is not among the sources.  It holds the persisted
  expenses, amounts in hundredths ("always exactly 2 fractional digits"), and answers
  \<open>category_total\<close> with "the sum of already-persisted amounts for that user+category
  within the calendar month containing" the date asked for, "first day of month
  inclusive, first day of next month exclusive".
\<close>

record persisted =
  p_user :: string
  p_category :: pyval
  p_cents :: int
  p_date :: datetime

definition month_total_cents :: "persisted list \<Rightarrow> string \<Rightarrow> pyval \<Rightarrow> datetime \<Rightarrow> int" where
  "month_total_cents store u c as_of =
     sum_list (map p_cents
       (filter (\<lambda>x. p_user x = u \<and> p_category x = c \<and> in_month_of as_of (p_date x)) store))"

definition store_repository ::
  "persisted list \<Rightarrow> (string \<Rightarrow> pyval \<Rightarrow> category option) \<Rightarrow> nat repository" where
  "store_repository store cats =
     \<lparr>get_category = (\<lambda>u c. Inr (cats u c)),
      get_category_total = (\<lambda>u c as_of. Inr (Fin (month_total_cents store u c as_of) (- 2))),
      create = (\<lambda>u rec. Inr (length store))\<rparr>"

text \<open>
  Modelled from the spec: \<open>BudgetEnforcer.check(user_id, category_key, candidate_amount,
  as_of)\<close> in the specification's words: an absent category fails with CategoryNotFound,
  an absent limit succeeds, and otherwise the check succeeds iff
  \<open>current_total + candidate_amount <= budget_limit\<close>, the total being that of the
  calendar month containing \<open>as_of\<close>.
\<close>

definition enforcer_check ::
  "persisted list \<Rightarrow> (string \<Rightarrow> pyval \<Rightarrow> category option) \<Rightarrow> string \<Rightarrow> pyval \<Rightarrow> decimal
     \<Rightarrow> datetime \<Rightarrow> error + unit" where
  "enforcer_check store cats u c candidate as_of =
     (case cats u c of
        None \<Rightarrow> Inl CategoryNotFoundError
      | Some cat \<Rightarrow>
          (case budget_limit cat of
             None \<Rightarrow> Inr ()
           | Some limit \<Rightarrow>
               ebind (dec_add (Fin (month_total_cents store u c as_of) (- 2)) candidate) (\<lambda>w.
               ebind (dec_le w limit) (\<lambda>ok.
               if ok then Inr () else Inl BudgetLimitExceededError))))"

section \<open>Sample records\<close>

text \<open>
  An otherwise well-formed expense record around a given amount; its date is a
  \<open>datetime\<close> object, so no date text is parsed for it.
\<close>

definition jan15 :: datetime where
  "jan15 = \<lparr>year = 2024, month = 1, day = 15, hour = 0, minute = 0, second = 0,
             microsecond = 0\<rparr>"

definition mar10 :: datetime where
  "mar10 = \<lparr>year = 2024, month = 3, day = 10, hour = 12, minute = 30, second = 0,
             microsecond = 0\<rparr>"

text \<open>
  The calendar-date form \<open>YYYY-MM-DD\<close> of \<open>datetime.fromisoformat\<close>, to stand for the
  library's parser where an example needs a concrete one.
\<close>

definition days_in_month :: "int \<Rightarrow> int \<Rightarrow> int" where
  "days_in_month y m =
     (if m = 2 then (if y mod 4 = 0 \<and> (y mod 100 \<noteq> 0 \<or> y mod 400 = 0) then 29 else 28)
      else if m \<in> {4, 6, 9, 11} then 30 else 31)"

definition fromisoformat_date :: isoparser where
  "fromisoformat_date s =
     (if length s = 10 \<and> s ! 4 = CHR ''-'' \<and> s ! 7 = CHR ''-''
         \<and> list_all is_digit (take 4 s @ take 2 (drop 5 s) @ drop 8 s)
      then (let y = int_of_digits (take 4 s); m = int_of_digits (take 2 (drop 5 s));
                d = int_of_digits (drop 8 s)
            in if 1 \<le> y \<and> 1 \<le> m \<and> m \<le> 12 \<and> 1 \<le> d \<and> d \<le> days_in_month y m
               then Some \<lparr>year = y, month = m, day = d, hour = 0, minute = 0, second = 0,
                          microsecond = 0\<rparr>
               else None)
      else None)"

definition expense_with_amount :: "pyval \<Rightarrow> pyval pydict" where
  "expense_with_amount a =
     [(''amount'', a), (''category'', PStr ''Food''), (''date'', PDateTime jan15),
      (''description'', PStr ''lunch'')]"

text \<open>
  A user with the single category "Food", whose budget limit is given; a store holding
  one January expense of 150.00 in that category; a record in a category "Travel" the
  user does not have, its date given as text.
\<close>

definition food_category :: "decimal option \<Rightarrow> string \<Rightarrow> pyval \<Rightarrow> category option" where
  "food_category limit u c =
     (if c = PStr ''Food'' then Some \<lparr>cat_name = ''Food'', budget_limit = limit\<rparr> else None)"

definition january_store :: "persisted list" where
  "january_store =
     [\<lparr>p_user = ''u1'', p_category = PStr ''Food'', p_cents = 15000,
       p_date = \<lparr>year = 2024, month = 1, day = 5, hour = 9, minute = 0, second = 0,
                  microsecond = 0\<rparr>\<rparr>]"

definition travel_expense :: "pyval \<Rightarrow> pyval pydict" where
  "travel_expense a =
     [(''amount'', a), (''category'', PStr ''Travel''), (''date'', PStr ''2024-01-15''),
      (''description'', PStr ''train'')]"



text \<open>
  Persisted expenses for the summary: three everyday ones, and three of which one is of
  \<open>10^28\<close>, beyond the 28 digits of the decimal context.
\<close>

definition everyday_expenses :: "expense list" where
  "everyday_expenses =
     [\<lparr>e_amount = Fin 1000 (- 2), e_category = ''Food'', e_tags = [''lunch''], e_date = jan15\<rparr>,
      \<lparr>e_amount = Fin 550 (- 2), e_category = ''Travel'', e_tags = [], e_date = jan15\<rparr>,
      \<lparr>e_amount = Fin 450 (- 2), e_category = ''Food'', e_tags = [''lunch'', ''team''],
       e_date = mar10\<rparr>]"

definition huge_expenses :: "expense list" where
  "huge_expenses =
     [\<lparr>e_amount = Fin 600 (- 2), e_category = ''A'', e_tags = [], e_date = jan15\<rparr>,
      \<lparr>e_amount = Fin 1000000000000000000000000000000 (- 2), e_category = ''B'', e_tags = [],
       e_date = jan15\<rparr>,
      \<lparr>e_amount = Fin 600 (- 2), e_category = ''A'', e_tags = [], e_date = mar10\<rparr>]"

text \<open>
  A heap with a caller's record at address 0 and its list of tags at address 1.
\<close>

definition caller_heap :: heap where
  "caller_heap =
     [ODict [(''amount'', HStr ''12.345''), (''category'', HStr ''Food''),
             (''date'', HStr ''2024-01-15''), (''description'', HStr ''lunch''),
             (''tags'', HRef 1)],
      OList [HStr '' Team '', HStr ''LUNCH'']]"

section \<open>Properties of the validator\<close>

text \<open>
  Claim C5.  The validator is to fail with the kind InvalidAmount for the amounts 0, -5
  and "abc", and to accept 0.01.  For 0 and -5 it raises "Amount must be greater than 0",
  and 0.01 passes all checks.  For "abc" the \<open>Decimal\<close> constructor raises
  \<open>decimal.InvalidOperation\<close>, which the handler \<open>except (ValueError, TypeError)\<close> does
  not catch: the validator lets it through instead of raising "Invalid amount format".
\<close>

theorem validate_amount_cases:
  "validate_expense_data fromiso (expense_with_amount (PInt 0))
     = Inl (InvalidExpenseError AmountNotPositive)
   \<and> validate_expense_data fromiso (expense_with_amount (PInt (- 5)))
     = Inl (InvalidExpenseError AmountNotPositive)
   \<and> validate_expense_data fromiso (expense_with_amount (PStr ''0.01'')) = Inr ()
   \<and> validate_expense_data fromiso (expense_with_amount (PStr ''abc'')) = Inl InvalidOperation
   \<and> \<not> is_InvalidAmount InvalidOperation"
  by code_simp

section \<open>Auxiliary facts: dicts, digits, rounding\<close>

lemma map_of_dict_set_same: "map_of (dict_set k v d) k = Some v"
  by (induction d) auto

lemma map_of_dict_set_other: "k' \<noteq> k \<Longrightarrow> map_of (dict_set k v d) k' = map_of d k'"
  by (induction d) auto

lemma ndigits_pos: "0 < ndigits n"
  by (subst ndigits.simps) simp

lemma ndigits_le: "0 < k \<Longrightarrow> (ndigits n \<le> k) = (n < 10 ^ k)"
proof (induction n arbitrary: k rule: ndigits.induct)
  case (1 n)
  show ?case
  proof (cases "n < 10")
    case True
    have "(10::int) \<le> 10 ^ k" using 1(2) by (cases k) (simp_all add: self_le_power)
    with True 1(2) show ?thesis by (simp add: ndigits.simps[of n] Suc_le_eq)
  next
    case False
    show ?thesis
    proof (cases k)
      case 0 with 1(2) show ?thesis by simp
    next
      case (Suc j)
      show ?thesis
      proof (cases "j = 0")
        case True
        with False Suc show ?thesis by (simp add: ndigits.simps[of n] ndigits_pos)
      next
        case j: False
        have "(ndigits (n div 10) \<le> j) = (n div 10 < 10 ^ j)"
          using 1(1)[OF False, of j] j by simp
        moreover have "(n div 10 < 10 ^ j) = (n < 10 ^ j * 10)"
          by presburger
        ultimately show ?thesis using False Suc by (simp add: ndigits.simps[of n] mult.commute)
      qed
    qed
  qed
qed

lemma round_half_even_nearest:
  assumes "0 \<le> n"
  shows "2 * \<bar>round_half_even n k * 10 ^ k - n\<bar> \<le> 10 ^ k
       \<and> (2 * \<bar>round_half_even n k * 10 ^ k - n\<bar> = 10 ^ k \<longrightarrow> even (round_half_even n k))"
proof -
  define P :: int where "P = 10 ^ k"
  define q where "q = n div P"
  define r where "r = n mod P"
  have P: "0 < P" by (simp add: P_def)
  have n: "n = q * P + r" by (simp add: q_def r_def)
  have r: "0 \<le> r" "r < P" using P by (simp_all add: r_def)
  show ?thesis
  proof (cases "P < 2 * r \<or> (2 * r = P \<and> odd q)")
    case True
    then have e: "round_half_even n k = q + 1"
      by (simp add: round_half_even_def Let_def P_def q_def r_def)
    have "(q + 1) * P - n = P - r" using n by (simp add: algebra_simps)
    then show ?thesis unfolding e P_def[symmetric] using True r by auto
  next
    case False
    then have e: "round_half_even n k = q"
      by (simp add: round_half_even_def Let_def P_def q_def r_def)
    have "q * P - n = - r" using n by simp
    then show ?thesis unfolding e P_def[symmetric] using False r by auto
  qed
qed

lemma rescale2_nearest: "nearest_even_cents c e (rescale2 c e)"
proof (cases "- 2 \<le> e")
  case True
  then show ?thesis by (simp add: nearest_even_cents_def rescale2_def)
next
  case False
  define k where "k = nat (- 2 - e)"
  define m where "m = round_half_even \<bar>c\<bar> k"
  have h: "2 * \<bar>m * 10 ^ k - \<bar>c\<bar>\<bar> \<le> 10 ^ k \<and> (2 * \<bar>m * 10 ^ k - \<bar>c\<bar>\<bar> = 10 ^ k \<longrightarrow> even m)"
    unfolding m_def by (rule round_half_even_nearest) simp
  have m0: "c = 0 \<Longrightarrow> m = 0" by (simp add: m_def round_half_even_def)
  have a: "\<bar>sgn c * m * 10 ^ k - c\<bar> = \<bar>m * 10 ^ k - \<bar>c\<bar>\<bar>"
    using m0 by (cases "c < 0"; cases "c = 0") (auto simp: sgn_if abs_if)
  have ev: "c \<noteq> 0 \<Longrightarrow> even (sgn c * m) = even m" by (simp add: sgn_if)
  show ?thesis
    using False h a ev m0
    by (auto simp: nearest_even_cents_def rescale2_def Let_def k_def[symmetric] m_def[symmetric])
qed

lemma round_half_even_ge: "0 \<le> n \<Longrightarrow> n div 10 ^ k \<le> round_half_even n k"
  by (simp add: round_half_even_def Let_def)

lemma round_half_even_nonneg: "0 \<le> n \<Longrightarrow> 0 \<le> round_half_even n k"
  by (simp add: round_half_even_def Let_def pos_imp_zdiv_nonneg_iff)

lemma abs_rescale2_small:
  assumes "e < - 2"
  shows "\<bar>rescale2 c e\<bar> = round_half_even \<bar>c\<bar> (nat (- 2 - e))"
proof -
  have "0 \<le> round_half_even \<bar>c\<bar> (nat (- 2 - e))" by (rule round_half_even_nonneg) simp
  moreover have "c = 0 \<Longrightarrow> round_half_even \<bar>c\<bar> (nat (- 2 - e)) = 0"
    by (simp add: round_half_even_def)
  ultimately show ?thesis using assms
    by (cases "c = 0") (auto simp: rescale2_def abs_mult sgn_if)
qed

lemma precheck_fails:
  assumes c: "c \<noteq> 0" and pre: "int context_prec < int (ndigits \<bar>c\<bar>) + e + 2"
  shows "10 ^ 28 \<le> \<bar>rescale2 c e\<bar>"
proof (cases "- 2 \<le> e")
  case True
  define j where "j = nat (e + 2)"
  have r: "\<bar>rescale2 c e\<bar> = \<bar>c\<bar> * 10 ^ j" using True by (simp add: rescale2_def j_def abs_mult)
  show ?thesis
  proof (cases "28 \<le> j")
    case True
    have "(10::int) ^ 28 \<le> 10 ^ j" using True by (intro power_increasing) simp_all
    also have "\<dots> \<le> \<bar>c\<bar> * 10 ^ j" using c by (simp add: mult_le_cancel_right1)
    finally show ?thesis using r by simp
  next
    case False
    then have j: "0 < 28 - j" by simp
    have "\<not> ndigits \<bar>c\<bar> \<le> 28 - j" using pre True False by (simp add: context_prec_def j_def)
    then have "10 ^ (28 - j) \<le> \<bar>c\<bar>" using ndigits_le[OF j, of "\<bar>c\<bar>"] by simp
    then have "10 ^ (28 - j) * 10 ^ j \<le> \<bar>c\<bar> * (10::int) ^ j" by (simp add: mult_right_mono)
    moreover have "(10::int) ^ (28 - j) * 10 ^ j = 10 ^ 28"
      using False by (simp add: power_add[symmetric])
    ultimately show ?thesis using r by simp
  qed
next
  case False
  define k where "k = nat (- 2 - e)"
  have "\<not> ndigits \<bar>c\<bar> \<le> 28 + k" using pre False by (simp add: context_prec_def k_def)
  then have "10 ^ (28 + k) \<le> \<bar>c\<bar>" using ndigits_le[of "28 + k" "\<bar>c\<bar>"] by simp
  then have "(10 ^ 28 * 10 ^ k) div 10 ^ k \<le> \<bar>c\<bar> div (10::int) ^ k"
    by (intro zdiv_mono1) (simp_all add: power_add)
  then have "10 ^ 28 \<le> \<bar>c\<bar> div (10::int) ^ k" by simp
  also have "\<dots> \<le> round_half_even \<bar>c\<bar> k" by (rule round_half_even_ge) simp
  finally show ?thesis using False by (simp add: abs_rescale2_small k_def)
qed

lemma py_round2_Fin_eq:
  "py_round2 (Fin c e) =
     (if \<bar>rescale2 c e\<bar> < 10 ^ 28 then Inr (Fin (rescale2 c e) (- 2)) else Inl InvalidOperation)"
proof (cases "c = 0")
  case True
  then show ?thesis by (simp add: rescale2_def round_half_even_def)
next
  case False
  show ?thesis
  proof (cases "int context_prec < int (ndigits \<bar>c\<bar>) + e + 2")
    case True
    with precheck_fails[OF False True] False show ?thesis by simp
  next
    case pre: False
    have "(context_prec < ndigits \<bar>rescale2 c e\<bar>) = (\<not> \<bar>rescale2 c e\<bar> < 10 ^ 28)"
      using ndigits_le[of 28 "\<bar>rescale2 c e\<bar>"] by (simp add: context_prec_def not_le[symmetric])
    with pre False show ?thesis by simp
  qed
qed

lemma validate_fields:
  assumes "validate_expense_data fromiso d = Inr ()"
  shows "\<exists>a dt ds. map_of d ''amount'' = Some a \<and> check_amount a = Inr ()
           \<and> map_of d ''date'' = Some dt \<and> check_date fromiso dt = Inr ()
           \<and> map_of d ''description'' = Some ds \<and> check_description ds = Inr ()
           \<and> check_tags (map_of d ''tags'') = Inr ()"
  using assms
  by (auto simp: validate_expense_data_def getitem_def split: sum.splits option.splits)

lemma check_date_normalize:
  "check_date fromiso dt = Inr () \<Longrightarrow> \<exists>dt'. normalize_date fromiso dt = Inr dt'"
  by (cases dt) (auto split: option.splits)

lemma check_each_tag_normalize:
  "check_each_tag ts = Inr () \<Longrightarrow> \<exists>r. normalize_each ts = Inr r"
proof (induction ts rule: check_each_tag.induct)
  case 1
  show ?case by simp
next
  case (2 s ts)
  then show ?case by (auto split: if_splits)
qed simp_all

lemma check_tags_normalize:
  "check_tags (Some t) = Inr () \<Longrightarrow> \<exists>r. normalize_tags t = Inr r"
  by (cases t) (auto split: if_splits dest: check_each_tag_normalize)

section \<open>Properties of the normalizer\<close>

text \<open>
  Claim C2, as the code has it.  \<open>round(Decimal(str(x)), 2)\<close> rounds ties to the even
  neighbour, not upwards.  For every record whose amount reads as a finite decimal
  \<open>c * 10^e\<close>: the number of hundredths \<open>rescale2 c e\<close> the code computes is a nearest one,
  and the even one on a tie; whenever the normalizer returns, the amount it stores is
  that number at exponent -2 (exactly 2 fractional digits); and it does return for every
  record that passed validation, provided the rounded amount fits the 28 digits of the
  decimal context (it is below \<open>10^26\<close>).
\<close>

theorem normalized_amount_half_even:
  assumes "map_of d ''amount'' = Some a" and "decimal_of_str a = Inr (Fin c e)"
  shows "nearest_even_cents c e (rescale2 c e)
     \<and> (\<forall>p. process_expense_data fromiso d = Inr p
            \<longrightarrow> map_of p ''amount'' = Some (Dec (Fin (rescale2 c e) (- 2))))
     \<and> (validate_expense_data fromiso d = Inr () \<and> \<bar>rescale2 c e\<bar> < 10 ^ 28
            \<longrightarrow> (\<exists>p. process_expense_data fromiso d = Inr p))"
proof (intro conjI allI impI)
  show "nearest_even_cents c e (rescale2 c e)" by (rule rescale2_nearest)
next
  fix p
  assume "process_expense_data fromiso d = Inr p"
  with assms show "map_of p ''amount'' = Some (Dec (Fin (rescale2 c e) (- 2)))"
    by (auto simp: process_expense_data_def getitem_def Let_def py_round2_Fin_eq
          map_of_dict_set_same map_of_dict_set_other
          simp del: py_round2.simps
          split: sum.splits option.splits if_splits)
next
  assume v: "validate_expense_data fromiso d = Inr () \<and> \<bar>rescale2 c e\<bar> < 10 ^ 28"
  from validate_fields[of fromiso d] v obtain dt where
    dt: "map_of d ''date'' = Some dt" "check_date fromiso dt = Inr ()"
    and tags: "check_tags (map_of d ''tags'') = Inr ()" by blast
  from check_date_normalize[OF dt(2)] obtain dt' where dt': "normalize_date fromiso dt = Inr dt'" ..
  have r: "py_round2 (Fin c e) = Inr (Fin (rescale2 c e) (- 2))"
    using v by (simp add: py_round2_Fin_eq del: py_round2.simps)
  show "\<exists>p. process_expense_data fromiso d = Inr p"
  proof (cases "map_of d ''tags''")
    case None
    with assms dt dt' r show ?thesis
      by (simp add: process_expense_data_def getitem_def Let_def)
  next
    case (Some t)
    with tags check_tags_normalize obtain ts where "normalize_tags t = Inr ts" by metis
    with Some assms dt dt' r show ?thesis
      by (simp add: process_expense_data_def getitem_def Let_def)
  qed
qed

theorem normalized_amount_half_even_witness:
  "nearest_even_cents 2675 (- 3) 268
   \<and> process_expense_data fromisoformat_date (expense_with_amount (PStr ''2.675''))
       = Inr [(''amount'', Dec (Fin 268 (- 2))), (''category'', Raw (PStr ''Food'')),
              (''date'', Raw (PDateTime jan15)), (''description'', Raw (PStr ''lunch''))]"
proof -
  have 1: "map_of (expense_with_amount (PStr ''2.675'')) ''amount'' = Some (PStr ''2.675'')"
    by code_simp
  have 2: "decimal_of_str (PStr ''2.675'') = Inr (Fin 2675 (- 3))"
    by code_simp
  have 3: "rescale2 2675 (- 3) = 268"
    by code_simp
  have 4: "process_expense_data fromisoformat_date (expense_with_amount (PStr ''2.675''))
       = Inr [(''amount'', Dec (Fin 268 (- 2))), (''category'', Raw (PStr ''Food'')),
              (''date'', Raw (PDateTime jan15)), (''description'', Raw (PStr ''lunch''))]"
    by code_simp
  from normalized_amount_half_even [OF 1 2, of fromisoformat_date] 3 4 show ?thesis
    by simp
qed

text \<open>
  Claim C2 as stated fails: 2.005 is normalized to 2.00, where rounding half-up gives
  2.01.
\<close>

theorem normalize_half_up_counterexample:
  "process_expense_data fromisoformat_date (expense_with_amount (PStr ''2.005''))
     = Inr [(''amount'', Dec (Fin 200 (- 2))), (''category'', Raw (PStr ''Food'')),
            (''date'', Raw (PDateTime jan15)), (''description'', Raw (PStr ''lunch''))]
   \<and> decimal_of_str (PStr ''2.005'') = Inr (Fin 2005 (- 3))
   \<and> spec_round2 2005 (- 3) = Fin 201 (- 2)"
  by code_simp

section \<open>Properties of the budget check\<close>

text \<open>
  Claim C3, at the input where the code departs from it.  The category has the budget
  limit 0.00 and the expense is of 5: \<open>if category.budget_limit:\<close> is false for a zero
  \<open>Decimal\<close>, so the check returns without asking for the month's total and without
  raising, where the documented rule (\<open>0 + 5 <= 0\<close> is false) fails with
  BudgetLimitExceeded.
\<close>

theorem zero_limit_not_enforced:
  "check_budget_limits (store_repository [] (food_category (Some (Fin 0 (- 2))))) mar10 ''u1''
       (expense_with_amount (PInt 5))
     = (Inr (), [GetCategory ''u1'' (PStr ''Food'')])
   \<and> enforcer_check [] (food_category (Some (Fin 0 (- 2)))) ''u1'' (PStr ''Food'') (Fin 5 0) mar10
     = Inl BudgetLimitExceededError"
  by code_simp

text \<open>
  For a limit that is present and not zero the check is the documented one: it fails
  with BudgetLimitExceeded exactly when \<open>current_total + amount > budget_limit\<close>.
\<close>

lemma budget_check_nonzero_limit:
  assumes "getitem d ''category'' = Inr cat" and "get_category repo u cat = Inr (Some c)"
    and "budget_limit c = Some l" and "dec_bool l"
    and "get_category_total repo u cat (now\<lparr>day := 1\<rparr>) = Inr t"
    and "getitem d ''amount'' = Inr a" and "decimal_of a = Inr x"
    and "dec_add t x = Inr w" and "dec_gt w l = Inr b"
  shows "fst (check_budget_limits repo now u d)
           = (if b then Inl BudgetLimitExceededError else Inr ())"
  using assms by (simp add: check_budget_limits_def over_limit_def Let_def)

lemma getitem_dict_set_other: "k' \<noteq> k \<Longrightarrow> getitem (dict_set k v d) k' = getitem d k'"
  by (simp add: getitem_def map_of_dict_set_other)

lemma over_limit_date: "over_limit t (dict_set ''date'' v d) l = over_limit t d l"
  by (simp add: over_limit_def getitem_dict_set_other)

text \<open>
  Claim C1, as the code has it.  The budget check never reads the expense's date: a
  record with another date gets the same answer and makes the same calls.  The only
  period start it hands to the repository is the wall-clock time of the call with its
  day set to 1, and for a category with a limit in force the outcome is decided by the
  total the repository returns for that start: the check is performed as of the time of
  the call.
\<close>

theorem budget_check_as_of_call_time:
  "check_budget_limits repo now u (dict_set ''date'' v d) = check_budget_limits repo now u d
   \<and> (\<forall>u' c' t. GetCategoryTotal u' c' t \<in> set (snd (check_budget_limits repo now u d))
         \<longrightarrow> t = now\<lparr>day := 1\<rparr>)
   \<and> (getitem d ''category'' = Inr cat \<and> get_category repo u cat = Inr (Some c)
        \<and> budget_limit c = Some l \<and> dec_bool l
        \<and> get_category_total repo u cat (now\<lparr>day := 1\<rparr>) = Inr t
      \<longrightarrow> fst (check_budget_limits repo now u d)
            = ebind (over_limit t d l) (\<lambda>b. if b then Inl BudgetLimitExceededError else Inr ()))"
proof (intro conjI allI impI)
  show "check_budget_limits repo now u (dict_set ''date'' v d) = check_budget_limits repo now u d"
    by (simp add: check_budget_limits_def getitem_dict_set_other over_limit_date Let_def
          split: sum.splits option.splits)
next
  fix u' c' t
  assume "GetCategoryTotal u' c' t \<in> set (snd (check_budget_limits repo now u d))"
  then show "t = now\<lparr>day := 1\<rparr>"
    by (auto simp: check_budget_limits_def Let_def split: sum.splits option.splits if_splits)
next
  assume "getitem d ''category'' = Inr cat \<and> get_category repo u cat = Inr (Some c)
        \<and> budget_limit c = Some l \<and> dec_bool l
        \<and> get_category_total repo u cat (now\<lparr>day := 1\<rparr>) = Inr t"
  then show "fst (check_budget_limits repo now u d)
            = ebind (over_limit t d l) (\<lambda>b. if b then Inl BudgetLimitExceededError else Inr ())"
    by (auto simp: check_budget_limits_def Let_def ebind_def split: sum.splits)
qed

theorem budget_check_as_of_call_time_witness:
  "check_budget_limits (store_repository january_store (food_category (Some (Fin 20000 (- 2)))))
       mar10 ''u1'' (dict_set ''date'' (PDateTime mar10) (expense_with_amount (PInt 60)))
     = check_budget_limits (store_repository january_store (food_category (Some (Fin 20000 (- 2)))))
         mar10 ''u1'' (expense_with_amount (PInt 60))
   \<and> fst (check_budget_limits
            (store_repository january_store (food_category (Some (Fin 20000 (- 2)))))
            mar10 ''u1'' (expense_with_amount (PInt 60))) = Inr ()"
proof -
  define repo where
    "repo = store_repository january_store (food_category (Some (Fin 20000 (- 2))))"
  have 1: "getitem (expense_with_amount (PInt 60)) ''category'' = Inr (PStr ''Food'')"
    by code_simp
  have 2: "get_category repo ''u1'' (PStr ''Food'')
             = Inr (Some \<lparr>cat_name = ''Food'', budget_limit = Some (Fin 20000 (- 2))\<rparr>)"
    unfolding repo_def by code_simp
  have 3: "budget_limit \<lparr>cat_name = ''Food'', budget_limit = Some (Fin 20000 (- 2))\<rparr>
             = Some (Fin 20000 (- 2))"
    by simp
  have 4: "dec_bool (Fin 20000 (- 2))"
    by simp
  have 5: "get_category_total repo ''u1'' (PStr ''Food'') (mar10\<lparr>day := 1\<rparr>) = Inr (Fin 0 (- 2))"
    unfolding repo_def by code_simp
  have 6: "ebind (over_limit (Fin 0 (- 2)) (expense_with_amount (PInt 60)) (Fin 20000 (- 2)))
             (\<lambda>b. if b then Inl BudgetLimitExceededError else Inr ()) = Inr ()"
    by code_simp
  from budget_check_as_of_call_time
         [of repo mar10 "''u1''" "PDateTime mar10" "expense_with_amount (PInt 60)"
             "PStr ''Food''" "\<lparr>cat_name = ''Food'', budget_limit = Some (Fin 20000 (- 2))\<rparr>"
             "Fin 20000 (- 2)" "Fin 0 (- 2)"]
       1 2 3 4 5 6
  show ?thesis unfolding repo_def by simp
qed

text \<open>
  Claim C1 as stated fails.  The user spent 150.00 on Food in January 2024, the limit is
  200.00, and an expense of 60 dated 15 January 2024 is created on 10 March 2024.  The
  code asks the repository for the total from 1 March on (which is 0) and lets the
  expense pass; checked as of the expense's own date, the January total of 150.00
  makes it exceed the limit.
\<close>

theorem budget_check_month_counterexample:
  "check_budget_limits (store_repository january_store (food_category (Some (Fin 20000 (- 2)))))
       mar10 ''u1'' (expense_with_amount (PInt 60))
     = (Inr (), [GetCategory ''u1'' (PStr ''Food''),
                 GetCategoryTotal ''u1'' (PStr ''Food'')
                   \<lparr>year = 2024, month = 3, day = 1, hour = 12, minute = 30, second = 0,
                    microsecond = 0\<rparr>])
   \<and> map_of (expense_with_amount (PInt 60)) ''date'' = Some (PDateTime jan15)
   \<and> month_total_cents january_store ''u1'' (PStr ''Food'') jan15 = 15000
   \<and> enforcer_check january_store (food_category (Some (Fin 20000 (- 2)))) ''u1'' (PStr ''Food'')
       (Fin 60 0) jan15
     = Inl BudgetLimitExceededError"
  by code_simp

section \<open>Properties of create_expense\<close>

text \<open>
  Claim C8, as the code has it.  Validation runs before the category is looked up.  For
  a record whose category the user does not have: when the record fails validation,
  \<open>create_expense\<close> fails with the validator's error and calls nothing; when it passes,
  \<open>create_expense\<close> fails with CategoryNotFound after the one category lookup.  In both
  cases the repository's \<open>create\<close> is never called.
\<close>

theorem create_expense_missing_category:
  assumes "map_of d ''category'' = Some cat" and "get_category repo u cat = Inr None"
  shows "create_expense fromiso repo now u d =
           (case validate_expense_data fromiso d of
              Inl err \<Rightarrow> (Inl err, [])
            | Inr ok \<Rightarrow> (Inl CategoryNotFoundError, [GetCategory u cat]))"
  using assms
  by (simp add: create_expense_def check_budget_limits_def getitem_def split: sum.splits)

theorem create_expense_missing_category_witness:
  "create_expense fromisoformat_date (store_repository [] (food_category None)) mar10 ''u1''
        (travel_expense (PStr ''12.50''))
      = (Inl CategoryNotFoundError, [GetCategory ''u1'' (PStr ''Travel'')])"
proof -
  have 1: "map_of (travel_expense (PStr ''12.50'')) ''category'' = Some (PStr ''Travel'')"
    by code_simp
  have 2: "get_category (store_repository [] (food_category None)) ''u1'' (PStr ''Travel'') = Inr None"
    by code_simp
  have 3: "validate_expense_data fromisoformat_date (travel_expense (PStr ''12.50'')) = Inr ()"
    by code_simp
  show ?thesis
    using create_expense_missing_category [OF 1 2, of fromisoformat_date mar10] 3 by simp
qed

text \<open>
  Claim C8 as stated fails for a record that does not pass validation: with the amount
  0 and a category the user does not have, \<open>create_expense\<close> fails with
  "Amount must be greater than 0", not with CategoryNotFound.
\<close>

theorem create_expense_missing_category_counterexample:
  "get_category (store_repository [] (food_category None)) ''u1'' (PStr ''Travel'') = Inr None
   \<and> create_expense fromisoformat_date (store_repository [] (food_category None)) mar10 ''u1''
        (travel_expense (PInt 0))
      = (Inl (InvalidExpenseError AmountNotPositive), [])"
  by code_simp

section \<open>Auxiliary facts: the analyzer\<close>

lemma ebind_Inr [simp]: "ebind (Inr x) f = f x"
  by (simp add: ebind_def)

lemma ebind_Inl [simp]: "ebind (Inl err) f = Inl err"
  by (simp add: ebind_def)

lemma ebind_eq_Inr: "(ebind m f = Inr y) = (\<exists>x. m = Inr x \<and> f x = Inr y)"
  by (cases m) simp_all

lemma is_fin_dec_fix: "is_fin (dec_fix c e)"
  by (simp add: dec_fix_def Let_def)

lemma dec_add_fin:
  assumes "is_fin x" and "is_fin y"
  shows "\<exists>z. dec_add x y = Inr z \<and> is_fin z"
  using assms by (cases x; cases y) (simp_all add: Let_def is_fin_dec_fix)





lemma keys_dict_set:
  "map fst (dict_set k v d) = (if k \<in> fst ` set d then map fst d else map fst d @ [k])"
  by (induction d) (auto simp: rev_image_eqI)


lemma values_dict_set:
  "list_all P (map snd d) \<Longrightarrow> P v \<Longrightarrow> list_all P (map snd (dict_set k v d))"
  by (induction d) auto

lemma map_of_values: "list_all P (map snd d) \<Longrightarrow> map_of d k = Some v \<Longrightarrow> P v"
  by (induction d) (auto split: if_splits)

lemma add_to_fin:
  assumes "is_fin a" and "list_all is_fin (map snd d)"
  shows "\<exists>d'. add_to k a d = Inr d' \<and> list_all is_fin (map snd d')
            \<and> map fst d' = (if k \<in> fst ` set d then map fst d else map fst d @ [k])"
proof -
  have "is_fin (case map_of d k of None \<Rightarrow> Fin 0 (- 2) | Some v \<Rightarrow> v)"
    using assms(2) by (auto split: option.splits dest: map_of_values)
  from dec_add_fin[OF this assms(1)] obtain z where
    "dec_add (case map_of d k of None \<Rightarrow> Fin 0 (- 2) | Some v \<Rightarrow> v) a = Inr z" "is_fin z" by blast
  then show ?thesis using assms(2) by (simp add: add_to_def keys_dict_set values_dict_set)
qed











lemma map_of_dict_set: "map_of (dict_set k v d) k' = (if k' = k then Some v else map_of d k')"
  by (simp add: map_of_dict_set_same map_of_dict_set_other)




































section \<open>Properties of the analyzer\<close>








section \<open>Auxiliary facts: the summary\<close>

lemma dec_fix_small: "\<bar>c\<bar> < 10 ^ 28 \<Longrightarrow> dec_fix c e = Fin c e"
  using ndigits_le[of 28 "\<bar>c\<bar>"] by (simp add: dec_fix_def context_prec_def Let_def)

lemma dec_add_cents:
  "\<bar>a + b\<bar> < 10 ^ 28 \<Longrightarrow> dec_add (Fin a (- 2)) (Fin b (- 2)) = Inr (Fin (a + b) (- 2))"
  by (simp add: dec_fix_small del: power_numeral)

lemma cents_within_mono: "cents_within A d \<Longrightarrow> A \<le> B \<Longrightarrow> cents_within B d"
  by (induction d) (auto simp: cents_within_def)

lemma cents_within_lookup:
  "cents_within A d \<Longrightarrow> map_of d k = Some v \<Longrightarrow> is_cents v \<and> \<bar>cents_of v\<bar> \<le> A"
  by (induction d) (auto simp: cents_within_def split: if_splits)

lemma cents_within_dict_set:
  "cents_within A d \<Longrightarrow> is_cents v \<Longrightarrow> \<bar>cents_of v\<bar> \<le> A \<Longrightarrow> cents_within A (dict_set k v d)"
  by (induction d) (auto simp: cents_within_def)

lemma dict_cents_dict_set:
  "dict_cents (dict_set k v d)
     = dict_cents d - (case map_of d k of None \<Rightarrow> 0 | Some old \<Rightarrow> cents_of old) + cents_of v"
  by (induction d) (auto simp: dict_cents_def)

lemma add_to_cents:
  assumes d: "cents_within A d" and A: "0 \<le> A" and b: "A + \<bar>c\<bar> < 10 ^ 28"
  shows "\<exists>d'. add_to k (Fin c (- 2)) d = Inr d' \<and> cents_within (A + \<bar>c\<bar>) d'
            \<and> dict_cents d' = dict_cents d + c"
proof (cases "map_of d k")
  case None
  have "\<bar>0 + c\<bar> < (10::int) ^ 28" using A b by linarith
  from dec_add_cents[OF this] have r: "add_to k (Fin c (- 2)) d = Inr (dict_set k (Fin c (- 2)) d)"
    using None by (simp add: add_to_def)
  have "cents_within (A + \<bar>c\<bar>) (dict_set k (Fin c (- 2)) d)"
    using A by (intro cents_within_dict_set cents_within_mono[OF d]) simp_all
  with r None show ?thesis by (simp add: dict_cents_dict_set)
next
  case (Some v)
  from cents_within_lookup[OF d Some] obtain a where v: "v = Fin a (- 2)" "\<bar>a\<bar> \<le> A"
    by (cases v) auto
  have "\<bar>a + c\<bar> < (10::int) ^ 28" using v(2) b by linarith
  from dec_add_cents[OF this]
  have r: "add_to k (Fin c (- 2)) d = Inr (dict_set k (Fin (a + c) (- 2)) d)"
    using Some v by (simp add: add_to_def)
  have "cents_within (A + \<bar>c\<bar>) (dict_set k (Fin (a + c) (- 2)) d)"
    using v(2) by (intro cents_within_dict_set cents_within_mono[OF d]) auto
  with r Some v show ?thesis by (simp add: dict_cents_dict_set)
qed

lemma add_to_each_fin:
  "is_fin a \<Longrightarrow> list_all is_fin (map snd d)
     \<Longrightarrow> \<exists>d'. add_to_each ks a d = Inr d' \<and> list_all is_fin (map snd d')"
proof (induction ks arbitrary: d)
  case Nil
  then show ?case by simp
next
  case (Cons k ks)
  from add_to_fin[OF Cons.prems, of k] obtain d1 where
    "add_to k a d = Inr d1" "list_all is_fin (map snd d1)" by blast
  with Cons.IH[of d1] Cons.prems(1) show ?case by simp
qed

lemma summary_loop_exact:
  assumes "list_all (\<lambda>e. is_cents (e_amount e)) xs"
    and "s_total s = Fin T (- 2)" and "\<bar>T\<bar> \<le> A"
    and "cents_within A (s_categories s)" and "dict_cents (s_categories s) = T"
    and "cents_within A (s_daily_totals s)" and "dict_cents (s_daily_totals s) = T"
    and "list_all is_fin (map snd (s_tags s))"
    and "A + sum_list (map (\<lambda>e. \<bar>cents_of (e_amount e)\<bar>) xs) < 10 ^ 28"
  shows "\<exists>s'. summary_loop s xs = Inr s' \<and> s_total s' = Fin (T + total_cents xs) (- 2)
            \<and> list_all (\<lambda>(k, v). is_cents v) (s_categories s')
            \<and> dict_cents (s_categories s') = T + total_cents xs
            \<and> list_all (\<lambda>(k, v). is_cents v) (s_daily_totals s')
            \<and> dict_cents (s_daily_totals s') = T + total_cents xs
            \<and> s_count s' = s_count s"
  using assms
proof (induction xs arbitrary: s T A)
  case Nil
  then show ?case
    by (auto simp: total_cents_def cents_within_def list_all_iff)
next
  case (Cons e xs)
  from Cons.prems(1) obtain c where c: "e_amount e = Fin c (- 2)"
    by (cases "e_amount e") auto
  have A0: "0 \<le> A" using Cons.prems(3) by linarith
  have rest: "0 \<le> sum_list (map (\<lambda>e. \<bar>cents_of (e_amount e)\<bar>) xs)"
    by (rule sum_list_nonneg) auto
  have b: "A + \<bar>c\<bar> < 10 ^ 28" using Cons.prems(9) c rest by simp
  have "\<bar>T + c\<bar> < (10::int) ^ 28" using Cons.prems(3) b by linarith
  from dec_add_cents[OF this] have t: "dec_add (s_total s) (e_amount e) = Inr (Fin (T + c) (- 2))"
    using Cons.prems(2) c by simp
  from add_to_cents[OF Cons.prems(4) A0 b, of "e_category e"] obtain cs where
    cs: "add_to (e_category e) (e_amount e) (s_categories s) = Inr cs"
        "cents_within (A + \<bar>c\<bar>) cs" "dict_cents cs = T + c"
    using c Cons.prems(5) by auto
  from add_to_cents[OF Cons.prems(6) A0 b, of "strftime_ymd (e_date e)"] obtain ds where
    ds: "add_to (strftime_ymd (e_date e)) (e_amount e) (s_daily_totals s) = Inr ds"
        "cents_within (A + \<bar>c\<bar>) ds" "dict_cents ds = T + c"
    using c Cons.prems(7) by auto
  from add_to_each_fin[OF _ Cons.prems(8), of "e_amount e" "e_tags e"] c obtain ts where
    ts: "add_to_each (e_tags e) (e_amount e) (s_tags s) = Inr ts" "list_all is_fin (map snd ts)"
    by auto
  define s1 where "s1 = s\<lparr>s_total := Fin (T + c) (- 2), s_categories := cs, s_tags := ts,
                           s_daily_totals := ds\<rparr>"
  have step: "summary_step s e = Inr s1"
    using t cs(1) ts(1) ds(1) by (simp add: summary_step_def s1_def)
  have "\<exists>s'. summary_loop s1 xs = Inr s' \<and> s_total s' = Fin ((T + c) + total_cents xs) (- 2)
            \<and> list_all (\<lambda>(k, v). is_cents v) (s_categories s')
            \<and> dict_cents (s_categories s') = (T + c) + total_cents xs
            \<and> list_all (\<lambda>(k, v). is_cents v) (s_daily_totals s')
            \<and> dict_cents (s_daily_totals s') = (T + c) + total_cents xs
            \<and> s_count s' = s_count s1"
  proof (rule Cons.IH[where A = "A + \<bar>c\<bar>"])
    show "list_all (\<lambda>e. is_cents (e_amount e)) xs" using Cons.prems(1) by simp
    show "s_total s1 = Fin (T + c) (- 2)" by (simp add: s1_def)
    show "\<bar>T + c\<bar> \<le> A + \<bar>c\<bar>" using Cons.prems(3) by linarith
    show "cents_within (A + \<bar>c\<bar>) (s_categories s1)" using cs(2) by (simp add: s1_def)
    show "dict_cents (s_categories s1) = T + c" using cs(3) by (simp add: s1_def)
    show "cents_within (A + \<bar>c\<bar>) (s_daily_totals s1)" using ds(2) by (simp add: s1_def)
    show "dict_cents (s_daily_totals s1) = T + c" using ds(3) by (simp add: s1_def)
    show "list_all is_fin (map snd (s_tags s1))" using ts(2) by (simp add: s1_def)
    show "A + \<bar>c\<bar> + sum_list (map (\<lambda>e. \<bar>cents_of (e_amount e)\<bar>) xs) < 10 ^ 28"
      using Cons.prems(9) c by simp
  qed
  then show ?case using step c by (simp add: total_cents_def s1_def add.assoc)
qed

lemma summary_step_count: "summary_step s e = Inr s' \<Longrightarrow> s_count s' = s_count s"
  by (auto simp: summary_step_def ebind_eq_Inr)

lemma summary_loop_count: "summary_loop s xs = Inr s' \<Longrightarrow> s_count s' = s_count s"
proof (induction xs arbitrary: s)
  case Nil
  then show ?case by simp
next
  case (Cons e xs)
  then obtain s1 where "summary_step s e = Inr s1" "summary_loop s1 xs = Inr s'"
    by (auto simp: ebind_eq_Inr)
  with Cons.IH[of s1] summary_step_count[of s e s1] show ?case by simp
qed

section \<open>Properties of the summary\<close>

text \<open>
  Claim C6, as the code has it.  Whenever the summary returns, \<open>count\<close> is the length of
  the list.  For every list of expenses whose amounts are numbers of hundredths (2
  fractional digits) with absolute values adding up to less than \<open>10^28\<close> hundredths, so
  that no sum exceeds the 28 digits of the decimal context, the summary returns, \<open>total\<close>
  is the sum of the amounts, and so is the sum of the values of \<open>categories\<close> and the sum
  of the values of \<open>daily_totals\<close>.
\<close>

theorem summary_totals_agree:
  "(\<forall>s. generate_summary xs = Inr s \<longrightarrow> s_count s = length xs)
   \<and> (list_all (\<lambda>e. is_cents (e_amount e)) xs
        \<and> sum_list (map (\<lambda>e. \<bar>cents_of (e_amount e)\<bar>) xs) < 10 ^ 28
      \<longrightarrow> (\<exists>s. generate_summary xs = Inr s
             \<and> s_total s = Fin (total_cents xs) (- 2)
             \<and> list_all (\<lambda>(k, v). is_cents v) (s_categories s)
             \<and> dict_cents (s_categories s) = total_cents xs
             \<and> list_all (\<lambda>(k, v). is_cents v) (s_daily_totals s)
             \<and> dict_cents (s_daily_totals s) = total_cents xs
             \<and> s_count s = length xs))"
proof (intro conjI allI impI)
  fix s
  assume "generate_summary xs = Inr s"
  then show "s_count s = length xs"
    by (auto simp: generate_summary_def dest: summary_loop_count)
next
  assume a: "list_all (\<lambda>e. is_cents (e_amount e)) xs
        \<and> sum_list (map (\<lambda>e. \<bar>cents_of (e_amount e)\<bar>) xs) < 10 ^ 28"
  have "\<exists>s'. summary_loop \<lparr>s_total = Fin 0 (- 2), s_categories = [], s_tags = [],
                   s_daily_totals = [], s_count = length xs\<rparr> xs = Inr s'
            \<and> s_total s' = Fin (0 + total_cents xs) (- 2)
            \<and> list_all (\<lambda>(k, v). is_cents v) (s_categories s')
            \<and> dict_cents (s_categories s') = 0 + total_cents xs
            \<and> list_all (\<lambda>(k, v). is_cents v) (s_daily_totals s')
            \<and> dict_cents (s_daily_totals s') = 0 + total_cents xs
            \<and> s_count s' = s_count \<lparr>s_total = Fin 0 (- 2), s_categories = [], s_tags = [],
                   s_daily_totals = [], s_count = length xs\<rparr>"
    by (rule summary_loop_exact[where A = 0])
       (use a in \<open>simp_all add: cents_within_def dict_cents_def\<close>)
  then show "\<exists>s. generate_summary xs = Inr s
             \<and> s_total s = Fin (total_cents xs) (- 2)
             \<and> list_all (\<lambda>(k, v). is_cents v) (s_categories s)
             \<and> dict_cents (s_categories s) = total_cents xs
             \<and> list_all (\<lambda>(k, v). is_cents v) (s_daily_totals s)
             \<and> dict_cents (s_daily_totals s) = total_cents xs
             \<and> s_count s = length xs"
    by (simp add: generate_summary_def)
qed

theorem summary_totals_agree_witness:
  "(\<exists>s. generate_summary everyday_expenses = Inr s
        \<and> s_total s = Fin 2000 (- 2)
        \<and> dict_cents (s_categories s) = 2000
        \<and> dict_cents (s_daily_totals s) = 2000
        \<and> s_count s = 3)
   \<and> generate_summary []
       = Inr \<lparr>s_total = Fin 0 (- 2), s_categories = [], s_tags = [], s_daily_totals = [],
              s_count = 0\<rparr>"
proof -
  have 1: "list_all (\<lambda>e. is_cents (e_amount e)) everyday_expenses"
    by code_simp
  have 2: "sum_list (map (\<lambda>e. \<bar>cents_of (e_amount e)\<bar>) everyday_expenses) < 10 ^ 28"
    by code_simp
  have 3: "total_cents everyday_expenses = 2000"
    by code_simp
  have 4: "length everyday_expenses = 3"
    by code_simp
  have 5: "generate_summary []
       = Inr \<lparr>s_total = Fin 0 (- 2), s_categories = [], s_tags = [], s_daily_totals = [],
              s_count = 0\<rparr>"
    by code_simp
  from summary_totals_agree [of everyday_expenses] 1 2 3 4 5 show ?thesis
    by auto
qed

text \<open>
  Claim C6 as stated fails beyond the precision of the context.  For the amounts 6.00
  (category A), \<open>10^28\<close> (category B) and 6.00 (category A) every sum is rounded to 28
  digits: \<open>total\<close> is \<open>10^28 + 20\<close>, the values of \<open>categories\<close> are 12.00 and \<open>10^28\<close>, and
  those of \<open>daily_totals\<close> are \<open>10^28 + 10\<close> and 6.00.  The amounts add up to
  \<open>10^28 + 12\<close>, which is less than \<open>total\<close>; and the \<open>Decimal\<close> sum of the two category
  values is \<open>10^28 + 10\<close>.
\<close>

theorem summary_totals_counterexample:
  "generate_summary huge_expenses
     = Inr \<lparr>s_total = Fin 1000000000000000000000000002 1,
            s_categories = [(''A'', Fin 1200 (- 2)), (''B'', Fin 1000000000000000000000000000 1)],
            s_tags = [],
            s_daily_totals = [(''2024-01-15'', Fin 1000000000000000000000000001 1),
                              (''2024-03-10'', Fin 600 (- 2))],
            s_count = 3\<rparr>
   \<and> total_cents huge_expenses = 1000000000000000000000000001200
   \<and> fin_less 1000000000000000000000000001200 (- 2) 1000000000000000000000000002 1
   \<and> dec_add (Fin 1200 (- 2)) (Fin 1000000000000000000000000000 1)
       = Inr (Fin 1000000000000000000000000001 1)
   \<and> fin_less 1000000000000000000000000001 1 1000000000000000000000000002 1"
  by code_simp

section \<open>Auxiliary facts: the heap\<close>

lemma read_dict_map_of:
  "read_dict f d = Some r \<Longrightarrow>
     (case map_of d k of None \<Rightarrow> map_of r k = None
      | Some v \<Rightarrow> (\<exists>x. f v = Some x \<and> map_of r k = Some x))"
proof (induction d arbitrary: r)
  case Nil
  then show ?case by simp
next
  case (Cons kv d)
  obtain k' v' where kv: "kv = (k', v')" by (cases kv)
  with Cons.prems obtain x r' where
    r: "f v' = Some x" "read_dict f d = Some r'" "r = (k', x) # r'"
    by (auto split: option.splits)
  from Cons.IH[OF r(2)] r kv show ?case by (auto split: option.splits)
qed

lemma read_dict_dict_set:
  "read_dict f d = Some r \<Longrightarrow> f v = Some x
     \<Longrightarrow> read_dict f (dict_set k v d) = Some (dict_set k x r)"
proof (induction d arbitrary: r)
  case Nil
  then show ?case by simp
next
  case (Cons kv d)
  obtain k' v' where kv: "kv = (k', v')" by (cases kv)
  with Cons.prems obtain x' r' where
    r: "f v' = Some x'" "read_dict f d = Some r'" "r = (k', x') # r'"
    by (auto split: option.splits)
  from Cons.IH[OF r(2) Cons.prems(2)] r kv Cons.prems(2) show ?case by simp
qed

lemma read_dict_cong:
  "(\<And>v. v \<in> snd ` set d \<Longrightarrow> f v = g v) \<Longrightarrow> read_dict f d = read_dict g d"
  by (induction d) (auto split: option.splits)

lemma read_dict_Raw:
  "read_dict f d = Some r \<Longrightarrow> read_dict (\<lambda>v. map_option Raw (f v)) d = Some (map (\<lambda>(k, v). (k, Raw v)) r)"
proof (induction d arbitrary: r)
  case Nil
  then show ?case by simp
next
  case (Cons kv d)
  obtain k' v' where kv: "kv = (k', v')" by (cases kv)
  with Cons.prems obtain x' r' where
    r: "f v' = Some x'" "read_dict f d = Some r'" "r = (k', x') # r'"
    by (auto split: option.splits)
  from Cons.IH[OF r(2)] r kv show ?case by simp
qed

lemma raw_of_decimal: "raw_of h v = Some x \<Longrightarrow> hdecimal_of_str v = decimal_of_str x"
  by (cases v) (auto split: option.splits obj.splits)

lemma raw_of_extend: "raw_of h v = Some x \<Longrightarrow> raw_of (h @ new) v = Some x"
  by (cases v) (auto simp: lookup_def nth_append split: option.splits obj.splits if_splits)

lemma cval_of_raw: "raw_of h v = Some x \<Longrightarrow> cval_of h v = Some (Raw x)"
  by (cases v) (auto split: option.splits)

lemma raw_of_date:
  "raw_of h v = Some x \<Longrightarrow>
     (case normalize_date fromiso x of
        Inl err \<Rightarrow> hnormalize_date fromiso v = Inl err
      | Inr x' \<Rightarrow> (\<exists>v'. hnormalize_date fromiso v = Inr v' \<and> raw_of h v' = Some x'
                       \<and> cval_of h v' = Some (Raw x')))"
  by (cases v) (auto split: option.splits obj.splits)

lemma flat_list_each:
  "flat_list vs = Some xs \<Longrightarrow>
     (case normalize_each xs of
        Inl err \<Rightarrow> hnormalize_each vs = Inl err
      | Inr ys \<Rightarrow> (\<exists>ws. hnormalize_each vs = Inr ws \<and> flat_list ws = Some ys))"
proof (induction vs arbitrary: xs)
  case Nil
  then show ?case by simp
next
  case (Cons v vs)
  then obtain x xs' where x: "flat v = Some x" "flat_list vs = Some xs'" "xs = x # xs'"
    by (auto split: option.splits)
  from Cons.IH[OF x(2)] x show ?case
    by (cases v) (auto split: sum.splits)
qed

lemma flat_list_chars: "flat_list (map (\<lambda>c. HStr [c]) s) = Some (map (\<lambda>c. PStr [c]) s)"
  by (induction s) auto

lemma raw_of_tags:
  "raw_of h v = Some x \<Longrightarrow>
     (case normalize_tags x of
        Inl err \<Rightarrow> ebind (iter_items h v) hnormalize_each = Inl err
      | Inr ys \<Rightarrow> (\<exists>ws. ebind (iter_items h v) hnormalize_each = Inr ws
                       \<and> flat_list ws = Some ys))"
proof (cases v)
  case (HStr s)
  assume "raw_of h v = Some x"
  with HStr have x: "x = PStr s" by simp
  from flat_list_each[OF flat_list_chars, of s] show ?thesis
    by (auto simp: HStr x split: sum.splits)
next
  case (HRef a)
  assume "raw_of h v = Some x"
  with HRef obtain vs xs where a: "lookup h a = Some (OList vs)" "flat_list vs = Some xs" "x = PList xs"
    by (auto split: option.splits obj.splits)
  from flat_list_each[OF a(2)] show ?thesis
    by (auto simp: HRef a split: sum.splits)
qed auto

lemma read_dict_lift:
  assumes "\<And>v x. f v = Some x \<Longrightarrow> g v = Some (F x)"
  shows "read_dict f d = Some r \<Longrightarrow> read_dict g d = Some (map (\<lambda>(k, x). (k, F x)) r)"
proof (induction d arbitrary: r)
  case Nil
  then show ?case by simp
next
  case (Cons kv d)
  obtain k' v' where kv: "kv = (k', v')" by (cases kv)
  with Cons.prems obtain x' r' where
    r: "f v' = Some x'" "read_dict f d = Some r'" "r = (k', x') # r'"
    by (auto split: option.splits)
  from Cons.IH[OF r(2)] assms[OF r(1)] r kv show ?case by simp
qed

lemma cval_of_extend: "raw_of h v = Some x \<Longrightarrow> cval_of (h @ new) v = Some (Raw x)"
  by (rule cval_of_raw) (rule raw_of_extend)

lemma cval_dict_extend:
  "raw_dict h d = Some pd \<Longrightarrow> cval_dict (h @ new) d = Some (map (\<lambda>(k, v). (k, Raw v)) pd)"
  unfolding raw_dict_def cval_dict_def
  by (rule read_dict_lift[where f = "raw_of h"]) (rule cval_of_extend)

lemma raw_dict_item:
  assumes "raw_dict h d = Some pd"
  shows "(map_of d k = None \<and> map_of pd k = None)
       \<or> (\<exists>v x. map_of d k = Some v \<and> raw_of h v = Some x \<and> map_of pd k = Some x)"
  using read_dict_map_of[OF assms[unfolded raw_dict_def], of k]
  by (auto split: option.splits)

text \<open>
  The heap model computes what the first model computes.  When the argument is a dict
  that reads back as the record \<open>pd\<close>, the call on the heap fails exactly when
  \<open>process_expense_data\<close> fails on \<open>pd\<close>, with the same exception, and otherwise returns
  the address of a dict that reads back as the record \<open>process_expense_data\<close> returns.
\<close>

lemma heap_model_agrees:
  assumes a: "lookup h a = Some (ODict d)" and pd: "raw_dict h d = Some pd"
  shows "case process_expense_data fromiso pd of
           Inl err \<Rightarrow> fst (process_expense_data_heap fromiso h a) = Inl err
         | Inr r \<Rightarrow>
             (\<exists>h' d'. process_expense_data_heap fromiso h a = (Inr (length h), h')
                 \<and> lookup h' (length h) = Some (ODict d') \<and> cval_dict h' d' = Some r)"
proof -
  define P0 where "P0 = map (\<lambda>(k, v). (k, Raw v)) pd"
  have c0: "\<And>new. cval_dict (h @ new) d = Some P0"
    unfolding P0_def by (rule cval_dict_extend[OF pd])
  from raw_dict_item[OF pd, of "''amount''"]
  show ?thesis
  proof (elim disjE conjE exE)
    assume "map_of d ''amount'' = None" "map_of pd ''amount'' = None"
    then show ?thesis
      using a by (simp add: process_expense_data_def process_expense_data_heap_def getitem_def)
  next
    fix v x
    assume v: "map_of d ''amount'' = Some v" "raw_of h v = Some x" "map_of pd ''amount'' = Some x"
    have dec: "hdecimal_of_str v = decimal_of_str x" by (rule raw_of_decimal[OF v(2)])
    show ?thesis
    proof (cases "ebind (decimal_of_str x) py_round2")
      case (Inl err)
      then show ?thesis
        using a v dec
        by (auto simp: process_expense_data_def process_expense_data_heap_def getitem_def
              ebind_def split: sum.splits)
    next
      case (Inr amount)
      define d1 where "d1 = dict_set ''amount'' (HDec amount) d"
      define P1 where "P1 = dict_set ''amount'' (Dec amount) P0"
      have c1: "\<And>new. cval_dict (h @ new) d1 = Some P1"
        unfolding d1_def P1_def cval_dict_def
        by (rule read_dict_dict_set[OF c0[unfolded cval_dict_def]]) simp
      have hamount: "ebind (getitem d ''amount'') (\<lambda>v. ebind (hdecimal_of_str v) py_round2) = Inr amount"
        using v dec Inr by (simp add: getitem_def)
      from Inr obtain x0 where pamount: "decimal_of_str x = Inr x0" "py_round2 x0 = Inr amount"
        by (auto simp: ebind_eq_Inr)
      from raw_dict_item[OF pd, of "''date''"]
      show ?thesis
      proof (elim disjE conjE exE)
        assume "map_of d ''date'' = None" "map_of pd ''date'' = None"
        then show ?thesis
          using a v pamount hamount
          by (simp add: process_expense_data_def process_expense_data_heap_def getitem_def
                Let_def map_of_dict_set)
      next
        fix w y
        assume w: "map_of d ''date'' = Some w" "raw_of h w = Some y" "map_of pd ''date'' = Some y"
        have gd: "getitem (dict_set ''amount'' (HDec amount) d) ''date'' = Inr w"
          using w(1) by (simp add: getitem_def map_of_dict_set)
        show ?thesis
        proof (cases "normalize_date fromiso y")
          case (Inl err)
          with raw_of_date[OF w(2), of fromiso] have "hnormalize_date fromiso w = Inl err" by simp
          with Inl show ?thesis
            using a v w pamount hamount gd
            by (simp add: process_expense_data_def process_expense_data_heap_def getitem_def
                  Let_def)
        next
          case (Inr y')
          with raw_of_date[OF w(2), of fromiso] obtain w' where
            w': "hnormalize_date fromiso w = Inr w'" "raw_of h w' = Some y'" by auto
          define d2 where "d2 = dict_set ''date'' w' d1"
          define P2 where "P2 = dict_set ''date'' (Raw y') P1"
          have c2: "\<And>new. cval_dict (h @ new) d2 = Some P2"
            unfolding d2_def P2_def cval_dict_def
            by (rule read_dict_dict_set[OF c1[unfolded cval_dict_def]])
               (rule cval_of_extend[OF w'(2)])
          have tags_d2: "map_of d2 ''tags'' = map_of d ''tags''"
            by (simp add: d2_def d1_def map_of_dict_set)
          have h3: "((h @ [ODict d])[length h := ODict d1])[length h := ODict d2] = h @ [ODict d2]"
            by simp
          from raw_dict_item[OF pd, of "''tags''"]
          show ?thesis
          proof (elim disjE conjE exE)
            assume t: "map_of d ''tags'' = None" "map_of pd ''tags'' = None"
            have p: "process_expense_data fromiso pd = Inr P2"
              using v w pamount Inr t
              by (simp add: process_expense_data_def getitem_def Let_def P0_def P1_def P2_def)
            have hp: "process_expense_data_heap fromiso h a = (Inr (length h), h @ [ODict d2])"
              using a hamount gd w' t tags_d2
              by (simp add: process_expense_data_heap_def Let_def d1_def[symmetric]
                    d2_def[symmetric])
            show ?thesis
              using p hp c2[of "[ODict d2]"] by (simp add: lookup_def)
          next
            fix tv tx
            assume t: "map_of d ''tags'' = Some tv" "raw_of h tv = Some tx"
              "map_of pd ''tags'' = Some tx"
            have tr: "raw_of (h @ [ODict d2]) tv = Some tx" by (rule raw_of_extend[OF t(2)])
            show ?thesis
            proof (cases "normalize_tags tx")
              case (Inl err)
              with raw_of_tags[OF tr] have
                "ebind (iter_items (h @ [ODict d2]) tv) hnormalize_each = Inl err" by simp
              then have "process_expense_data_heap fromiso h a = (Inl err, h @ [ODict d2])"
                using a hamount gd w' t tags_d2
                by (simp add: process_expense_data_heap_def Let_def d1_def[symmetric]
                      d2_def[symmetric])
              moreover have "process_expense_data fromiso pd = Inl err"
                using v w pamount Inr t Inl
                by (simp add: process_expense_data_def getitem_def Let_def)
              ultimately show ?thesis by simp
            next
              case ys: (Inr ys)
              with raw_of_tags[OF tr] obtain ws where
                ws: "ebind (iter_items (h @ [ODict d2]) tv) hnormalize_each = Inr ws"
                    "flat_list ws = Some ys" by auto
              define d3 where "d3 = dict_set ''tags'' (HRef (Suc (length h))) d2"
              define H where "H = h @ [ODict d3, OList ws]"
              have hp: "process_expense_data_heap fromiso h a = (Inr (length h), H)"
                using a hamount gd w' t tags_d2 ws(1)
                by (simp add: process_expense_data_heap_def Let_def d1_def[symmetric]
                      d2_def[symmetric] d3_def H_def list_update_append)
              have p: "process_expense_data fromiso pd
                         = Inr (dict_set ''tags'' (Raw (PList ys)) P2)"
                using v w pamount Inr t ys
                by (simp add: process_expense_data_def getitem_def Let_def P0_def P1_def P2_def)
              have "cval_of H (HRef (Suc (length h))) = Some (Raw (PList ys))"
                using ws(2) by (simp add: H_def lookup_def nth_append)
              with c2[of "[ODict d3, OList ws]"]
              have "cval_dict H d3 = Some (dict_set ''tags'' (Raw (PList ys)) P2)"
                unfolding d3_def cval_dict_def H_def by (intro read_dict_dict_set)
              moreover have "lookup H (length h) = Some (ODict d3)"
                by (simp add: H_def lookup_def)
              ultimately show ?thesis using p hp by simp
            qed
          qed
        qed
      qed
    qed
  qed
qed

section \<open>Properties of the normalizer on the heap\<close>

text \<open>
  Claim C10.  Whatever the heap, the argument and the outcome, \<open>_process_expense_data\<close>
  leaves every object that existed before the call as it was: the heap after the call
  is the heap before it followed by new objects.  In particular the caller's dict, with
  its amount, date and tags entries, and the caller's list of tags are unchanged.  When
  the function returns, the record it returns is a dict at a new address.
\<close>

theorem process_expense_data_keeps_input:
  "(\<exists>new. snd (process_expense_data_heap fromiso h a) = h @ new)
   \<and> (case fst (process_expense_data_heap fromiso h a) of
        Inl err \<Rightarrow> True
      | Inr p \<Rightarrow> p = length h
                \<and> (\<exists>d. lookup (snd (process_expense_data_heap fromiso h a)) p = Some (ODict d)))"
  by (auto simp: process_expense_data_heap_def lookup_def Let_def nth_append list_update_append
           split: option.splits obj.splits sum.splits)

theorem process_expense_data_keeps_input_witness:
  "process_expense_data_heap fromisoformat_date caller_heap 0
     = (Inr 2,
        caller_heap @
        [ODict [(''amount'', HDec (Fin 1234 (- 2))), (''category'', HStr ''Food''),
                (''date'', HDateTime jan15), (''description'', HStr ''lunch''),
                (''tags'', HRef 3)],
         OList [HStr ''team'', HStr ''lunch'']])
   \<and> (\<exists>new. snd (process_expense_data_heap fromisoformat_date caller_heap 0) = caller_heap @ new)"
proof -
  have "process_expense_data_heap fromisoformat_date caller_heap 0
     = (Inr 2,
        caller_heap @
        [ODict [(''amount'', HDec (Fin 1234 (- 2))), (''category'', HStr ''Food''),
                (''date'', HDateTime jan15), (''description'', HStr ''lunch''),
                (''tags'', HRef 3)],
         OList [HStr ''team'', HStr ''lunch'']])"
    by code_simp
  with process_expense_data_keeps_input [of fromisoformat_date caller_heap 0] show ?thesis
    by simp
qed

section \<open>Auxiliary facts: the rounding error of sums, quotients and products\<close>

text \<open>
  The context's rounding moves a value by at most half a unit in the 28th digit, and the
  quotient computed with one digit more and a sticky last digit by at most a tenth of
  that before it is rounded.  A quotient that ends within one digit past the dividend's
  exponent is exact.
\<close>

lemma rval_shift: "0 \<le> k \<Longrightarrow> rval (c * 10 ^ nat k) (e - k) = rval c e"
proof -
  assume k: "0 \<le> k"
  have "(10::real) powi e = 10 powi (e - k) * 10 powi k"
    by (simp add: power_int_add[symmetric])
  also have "(10::real) powi k = 10 ^ nat k" using k by (simp add: power_int_nonneg_exp)
  finally show ?thesis by (simp add: rval_def)
qed

lemma fin_less_rval: "fin_less c1 e1 c2 e2 = (rval c1 e1 < rval c2 e2)"
proof -
  define m where "m = min e1 e2"
  have 1: "rval c1 e1 = rval (c1 * 10 ^ nat (e1 - m)) m"
    using rval_shift[of "e1 - m" c1 e1] by (simp add: m_def)
  have 2: "rval c2 e2 = rval (c2 * 10 ^ nat (e2 - m)) m"
    using rval_shift[of "e2 - m" c2 e2] by (simp add: m_def)
  have p: "(0::real) < 10 powi m" by (simp add: zero_less_power_int)
  have "(rval (c1 * 10 ^ nat (e1 - m)) m < rval (c2 * 10 ^ nat (e2 - m)) m)
      = (c1 * 10 ^ nat (e1 - m) < c2 * 10 ^ nat (e2 - m))"
    unfolding rval_def using p by (simp add: mult_less_cancel_right_pos del: of_int_mult of_int_power)
  then show ?thesis unfolding 1 2 by (simp add: fin_less_def Let_def m_def)
qed

lemma ndigits_lower: "10 \<le> n \<Longrightarrow> 10 ^ (ndigits n - 1) \<le> n"
proof -
  assume n: "10 \<le> n"
  have d: "1 < ndigits n" using n by (subst ndigits.simps) (simp add: ndigits_pos)
  then have "0 < ndigits n - 1" by simp
  from ndigits_le[OF this, of n] have "\<not> n < 10 ^ (ndigits n - 1)" using d by auto
  then show ?thesis by simp
qed

lemma ndigits_upper: "n < 10 ^ ndigits n"
  using ndigits_le[OF ndigits_pos, of n n] by simp

lemma round_half_even_upper: "0 \<le> n \<Longrightarrow> round_half_even n k \<le> n div 10 ^ k + 1"
  by (simp add: round_half_even_def Let_def)

lemma dec_fix_rounded:
  assumes big: "10 ^ 28 \<le> \<bar>c\<bar>"
  shows "\<exists>c' e' k. dec_fix c e = Fin c' e'
           \<and> rval c' e' = rval (sgn c * round_half_even \<bar>c\<bar> k) (e + int k)
           \<and> 10 ^ (k + 27) \<le> \<bar>c\<bar> \<and> \<bar>c'\<bar> < 10 ^ 28"
proof -
  define n where "n = \<bar>c\<bar>"
  define k where "k = ndigits n - 28"
  define q where "q = round_half_even n k"
  have n0: "0 \<le> n" by (simp add: n_def)
  have d: "\<not> ndigits n \<le> 28"
    using ndigits_le[of 28 n] big by (simp add: n_def)
  then have k: "ndigits n = k + 28" by (simp add: k_def)
  have n10: "10 \<le> n" using big by (simp add: n_def)
  from ndigits_lower[OF n10] k have low: "10 ^ (k + 27) \<le> n" by (simp add: add.commute)
  from ndigits_upper[of n] k have up: "n < 10 ^ 28 * 10 ^ k" by (simp add: power_add mult.commute)
  have p: "(0::int) < 10 ^ k" by simp
  have "n div 10 ^ k * 10 ^ k + n mod 10 ^ k = n" by (rule div_mult_mod_eq)
  moreover have "0 \<le> n mod 10 ^ k" using p by (rule pos_mod_sign)
  ultimately have "n div 10 ^ k * 10 ^ k < 10 ^ 28 * 10 ^ k" using up by linarith
  then have "n div 10 ^ k < 10 ^ 28" by (simp only: mult_less_cancel_right_pos[OF p])
  with round_half_even_upper[OF n0, of k] have qu: "q \<le> 10 ^ 28" by (simp add: q_def)
  have q0: "0 \<le> q" unfolding q_def by (rule round_half_even_nonneg[OF n0])
  have fx: "dec_fix c e = (if 28 < ndigits q then Fin (sgn c * (q div 10)) (e + int k + 1)
                          else Fin (sgn c * q) (e + int k))"
    using d by (simp add: dec_fix_def Let_def context_prec_def n_def[symmetric] k_def[symmetric]
          q_def[symmetric])
  show ?thesis
  proof (cases "28 < ndigits q")
    case True
    then have "\<not> q < 10 ^ 28" using ndigits_le[of 28 q] by simp
    with qu have q: "q = 10 ^ 28" by simp
    have "rval (sgn c * (q div 10)) (e + int k + 1) = rval (sgn c * q) (e + int k)"
      using rval_shift[of 1 "sgn c * (q div 10)" "e + int k + 1"] by (simp add: q mult.commute)
    moreover have "\<bar>sgn c * (q div 10)\<bar> < 10 ^ 28" by (simp add: q abs_mult sgn_if)
    ultimately show ?thesis using fx True low
      by (auto simp: n_def[symmetric] q_def[symmetric] intro!: exI[of _ k])
  next
    case False
    then have "q < 10 ^ 28" using ndigits_le[of 28 q] by simp
    then have "\<bar>sgn c * q\<bar> < 10 ^ 28" using q0 by (simp add: abs_mult sgn_if)
    then show ?thesis using fx False low
      by (auto simp: n_def[symmetric] q_def[symmetric] intro!: exI[of _ k])
  qed
qed

lemma dec_fix_error:
  "\<exists>c' e'. dec_fix c e = Fin c' e' \<and> \<bar>c'\<bar> < 10 ^ 28
      \<and> \<bar>rval c' e' - rval c e\<bar> \<le> (1/2) * 10 powi (- 27) * \<bar>rval c e\<bar>
      \<and> (\<bar>c\<bar> < 10 ^ 28 \<longrightarrow> c' = c \<and> e' = e)"
proof (cases "\<bar>c\<bar> < 10 ^ 28")
  case True
  then show ?thesis by (simp add: dec_fix_small del: power_numeral)
next
  case False
  then have big: "10 ^ 28 \<le> \<bar>c\<bar>" by simp
  from dec_fix_rounded[OF big, of e] obtain c' e' k where
    f: "dec_fix c e = Fin c' e'"
       "rval c' e' = rval (sgn c * round_half_even \<bar>c\<bar> k) (e + int k)"
       "10 ^ (k + 27) \<le> \<bar>c\<bar>" "\<bar>c'\<bar> < 10 ^ 28" by blast
  define q where "q = round_half_even \<bar>c\<bar> k"
  have near: "2 * \<bar>q * 10 ^ k - \<bar>c\<bar>\<bar> \<le> 10 ^ k"
    using round_half_even_nearest[of "\<bar>c\<bar>" k] by (simp add: q_def)
  have c0: "c \<noteq> 0" using big by auto
  have "rval (sgn c * q) (e + int k) = rval (sgn c * q * 10 ^ k) e"
    using rval_shift[of "int k" "sgn c * q" "e + int k"] by simp
  then have "rval c' e' - rval c e = of_int (sgn c * q * 10 ^ k - c) * 10 powi e"
    using f(2) by (simp add: rval_def q_def algebra_simps)
  moreover have "\<bar>sgn c * q * 10 ^ k - c\<bar> = \<bar>q * 10 ^ k - \<bar>c\<bar>\<bar>"
    using c0 by (cases "c < 0") (auto simp: sgn_if)
  ultimately have e1: "\<bar>rval c' e' - rval c e\<bar> = of_int \<bar>q * 10 ^ k - \<bar>c\<bar>\<bar> * 10 powi e"
    by (simp add: abs_mult del: of_int_diff of_int_mult of_int_power)
  have "2 * of_int \<bar>q * 10 ^ k - \<bar>c\<bar>\<bar> \<le> (10::real) ^ k"
    using near by (metis of_int_le_iff of_int_mult of_int_numeral of_int_power)
  moreover have "(10::real) ^ k * 10 ^ 27 \<le> of_int \<bar>c\<bar>"
    using f(3) by (metis of_int_le_iff of_int_numeral of_int_power power_add)
  ultimately have "of_int \<bar>q * 10 ^ k - \<bar>c\<bar>\<bar> \<le> (1/2) * 10 powi (- 27) * (of_int \<bar>c\<bar> :: real)"
    by (simp add: power_int_minus field_simps)
  then have "of_int \<bar>q * 10 ^ k - \<bar>c\<bar>\<bar> * 10 powi e
               \<le> (1/2) * 10 powi (- 27) * (of_int \<bar>c\<bar> :: real) * 10 powi e"
    by (intro mult_right_mono) (simp_all add: zero_le_power_int)
  then have "\<bar>rval c' e' - rval c e\<bar> \<le> (1/2) * 10 powi (- 27) * \<bar>rval c e\<bar>"
    unfolding e1 by (simp add: rval_def abs_mult power_int_abs)
  with f False show ?thesis by auto
qed

lemma ndigits_lower1: "1 \<le> n \<Longrightarrow> 10 ^ (ndigits n - 1) \<le> n"
proof (cases "10 \<le> n")
  case True then show ?thesis by (rule ndigits_lower)
next
  case False
  assume "1 \<le> n"
  with False show ?thesis by (subst ndigits.simps) simp
qed

lemma strip_zeros_value:
  "strip_zeros q x ideal = (q', x') \<Longrightarrow> rval q' x' = rval q x \<and> \<bar>q'\<bar> \<le> \<bar>q\<bar>"
proof (induction q x ideal rule: strip_zeros.induct)
  case (1 q x ideal)
  show ?case
  proof (cases "x < ideal \<and> q mod 10 = 0")
    case True
    with 1(2) have s: "strip_zeros (q div 10) (x + 1) ideal = (q', x')"
      by (subst (asm) strip_zeros.simps) simp
    from 1(1)[OF True s] have ih: "rval q' x' = rval (q div 10) (x + 1)" "\<bar>q'\<bar> \<le> \<bar>q div 10\<bar>"
      by simp_all
    from True have q: "q = q div 10 * 10" by presburger
    have "rval (q div 10) (x + 1) = rval (q div 10 * 10) x"
      using rval_shift[of 1 "q div 10" "x + 1"] by simp
    with q have "rval (q div 10) (x + 1) = rval q x" by simp
    moreover have "\<bar>q div 10\<bar> \<le> \<bar>q\<bar>" by presburger
    ultimately show ?thesis using ih by simp
  next
    case False
    with 1(2) show ?thesis by (subst (asm) strip_zeros.simps) auto
  qed
qed

lemma strip_zeros_exact:
  "q = m * 10 ^ k \<Longrightarrow> x + int k \<le> ideal \<Longrightarrow> strip_zeros q x ideal = (q', x')
     \<Longrightarrow> \<bar>q'\<bar> \<le> \<bar>m\<bar>"
proof (induction k arbitrary: q x)
  case 0
  with strip_zeros_value[of q x ideal q' x'] show ?case by simp
next
  case (Suc k)
  from Suc.prems(1) have m: "q mod 10 = 0" "q div 10 = m * 10 ^ k" by simp_all
  from Suc.prems(2) have x: "x < ideal" "x + 1 + int k \<le> ideal" by simp_all
  from Suc.prems(3) m(1) x(1) have "strip_zeros (q div 10) (x + 1) ideal = (q', x')"
    by (subst (asm) strip_zeros.simps) simp
  from Suc.IH[OF m(2) x(2) this] show ?case .
qed

lemma fin_div_shape:
  assumes c: "c \<noteq> 0" and n: "n \<noteq> 0" and small: "\<bar>c\<bar> < 10 ^ 28"
  shows "\<exists>s. 0 < s \<and> 10 ^ 28 * \<bar>n\<bar> \<le> \<bar>c\<bar> * 10 ^ s
           \<and> fin_div c e n =
               (let q = (\<bar>c\<bar> * 10 ^ s) div \<bar>n\<bar>; r = (\<bar>c\<bar> * 10 ^ s) mod \<bar>n\<bar>;
                    qx = (if r \<noteq> 0 then (if q mod 5 = 0 then q + 1 else q, e - int s)
                          else strip_zeros q (e - int s) e)
                in dec_fix (sgn c * sgn n * fst qx) (snd qx))"
proof -
  define a where "a = \<bar>c\<bar>"
  define b where "b = \<bar>n\<bar>"
  have a1: "1 \<le> a" and b1: "1 \<le> b" using c n by (simp_all add: a_def b_def)
  have da: "ndigits a \<le> 28" using ndigits_le[of 28 a] small by (simp add: a_def)
  define s where "s = ndigits b + 29 - ndigits a"
  have sh: "int (ndigits b) - int (ndigits a) + int context_prec + 1 = int s"
    using da by (simp add: s_def context_prec_def)
  have s0: "0 < s" using da by (simp add: s_def)
  have e1: "ndigits a - 1 + s = ndigits b + 28"
    using da ndigits_pos[of a] by (simp add: s_def)
  have "(10::int) ^ (ndigits b + 28) = 10 ^ (ndigits a - 1) * 10 ^ s"
    by (simp add: e1[symmetric] power_add)
  also have "\<dots> \<le> a * 10 ^ s"
    using ndigits_lower1[OF a1] by (intro mult_right_mono) simp_all
  finally have 1: "(10::int) ^ (ndigits b + 28) \<le> a * 10 ^ s" .
  have "10 ^ 28 * b \<le> 10 ^ 28 * 10 ^ ndigits b"
    using ndigits_upper[of b] by (intro mult_left_mono) simp_all
  also have "\<dots> = 10 ^ (ndigits b + 28)" by (simp add: power_add)
  finally have 2: "10 ^ 28 * b \<le> a * 10 ^ s" using 1 by simp
  have "fin_div c e n =
               (let q = (a * 10 ^ s) div b; r = (a * 10 ^ s) mod b;
                    qx = (if r \<noteq> 0 then (if q mod 5 = 0 then q + 1 else q, e - int s)
                          else strip_zeros q (e - int s) e)
                in dec_fix (sgn c * sgn n * fst qx) (snd qx))"
    unfolding fin_div_def a_def[symmetric] b_def[symmetric] sh Let_def split_beta
    by simp
  with s0 2 show ?thesis unfolding a_def b_def by blast
qed

lemma rel_compose:
  fixes w t v d1 d2 :: real
  assumes 1: "\<bar>w - t\<bar> \<le> d1 * \<bar>t\<bar>" and 2: "\<bar>t - v\<bar> \<le> d2 * \<bar>v\<bar>" and d: "0 \<le> d1"
  shows "\<bar>w - v\<bar> \<le> (d1 + d2 + d1 * d2) * \<bar>v\<bar>"
proof -
  have "\<bar>t\<bar> \<le> \<bar>v\<bar> + d2 * \<bar>v\<bar>" using 2 by linarith
  then have "d1 * \<bar>t\<bar> \<le> d1 * (\<bar>v\<bar> + d2 * \<bar>v\<bar>)" using d by (rule mult_left_mono)
  then have "\<bar>w - t\<bar> \<le> d1 * \<bar>v\<bar> + d1 * d2 * \<bar>v\<bar>" using 1 by (simp add: algebra_simps)
  moreover have "\<bar>w - v\<bar> \<le> \<bar>w - t\<bar> + \<bar>t - v\<bar>" by linarith
  ultimately show ?thesis using 2 by (simp add: algebra_simps)
qed

lemma dec_fix_rel:
  "\<exists>c' e'. dec_fix c e = Fin c' e' \<and> \<bar>c'\<bar> < 10 ^ 28
      \<and> \<bar>rval c' e' - rval c e\<bar> \<le> (5 / 10 ^ 28) * \<bar>rval c e\<bar>"
proof -
  have "(1/2) * 10 powi (- 27) = (5 / 10 ^ 28 :: real)"
    by (simp add: power_int_minus)
  with dec_fix_error[of c e] show ?thesis by auto
qed

lemma rval_sgn: "rval (s * c) e = of_int s * rval c e"
  by (simp add: rval_def)

lemma fin_div_exact:
  assumes c: "c \<noteq> 0" and n: "n \<noteq> 0" and small: "\<bar>c\<bar> < 10 ^ 28"
    and m: "c * 10 = m * n" and msmall: "\<bar>m\<bar> < 10 ^ 28"
  shows "\<exists>c' e'. fin_div c e n = Fin c' e' \<and> rval c' e' = rval m (e - 1) \<and> \<bar>c'\<bar> \<le> \<bar>m\<bar>"
proof -
  from fin_div_shape[OF c n small, of e] obtain s where
    s: "0 < s"
    and f: "fin_div c e n =
               (let q = (\<bar>c\<bar> * 10 ^ s) div \<bar>n\<bar>; r = (\<bar>c\<bar> * 10 ^ s) mod \<bar>n\<bar>;
                    qx = (if r \<noteq> 0 then (if q mod 5 = 0 then q + 1 else q, e - int s)
                          else strip_zeros q (e - int s) e)
                in dec_fix (sgn c * sgn n * fst qx) (snd qx))" by blast
  from s obtain k where k: "s = Suc k" by (cases s) auto
  have "\<bar>c\<bar> * 10 = \<bar>m\<bar> * \<bar>n\<bar>" using m by (metis abs_mult abs_numeral)
  then have N: "\<bar>c\<bar> * 10 ^ s = (\<bar>m\<bar> * 10 ^ k) * \<bar>n\<bar>" by (simp add: k algebra_simps)
  have n0: "\<bar>n\<bar> \<noteq> 0" using n by simp
  have q: "(\<bar>c\<bar> * 10 ^ s) div \<bar>n\<bar> = \<bar>m\<bar> * 10 ^ k" and r: "(\<bar>c\<bar> * 10 ^ s) mod \<bar>n\<bar> = 0"
    unfolding N using n0 by simp_all
  obtain q' x' where st: "strip_zeros (\<bar>m\<bar> * 10 ^ k) (e - int s) e = (q', x')"
    by (cases "strip_zeros (\<bar>m\<bar> * 10 ^ k) (e - int s) e") auto
  have fx: "fin_div c e n = dec_fix (sgn c * sgn n * q') x'"
    unfolding f q r Let_def st by simp
  from strip_zeros_value[OF st] have v: "rval q' x' = rval (\<bar>m\<bar> * 10 ^ k) (e - int s)" by simp
  have "rval (\<bar>m\<bar> * 10 ^ k) (e - int s) = rval \<bar>m\<bar> (e - 1)"
    using rval_shift[of "int k" "\<bar>m\<bar>" "e - 1"] by (simp add: k algebra_simps)
  with v have v': "rval q' x' = rval \<bar>m\<bar> (e - 1)" by simp
  have "e - int s + int k \<le> e" by (simp add: k)
  from strip_zeros_exact[OF refl this st] have le: "\<bar>q'\<bar> \<le> \<bar>m\<bar>" by simp
  have "sgn (c * 10) = sgn (m * n)" using m by simp
  then have "sgn c = sgn m * sgn n" by (simp add: sgn_mult)
  then have "sgn c * sgn n = sgn m * (sgn n * sgn n)" by simp
  also have "sgn n * sgn n = 1" using n by (simp add: sgn_if)
  finally have sg: "sgn c * sgn n = sgn m" by simp
  have "\<bar>sgn m * q'\<bar> \<le> \<bar>m\<bar>" using le by (cases "m = 0") (auto simp: abs_mult sgn_if)
  moreover from this msmall have "dec_fix (sgn m * q') x' = Fin (sgn m * q') x'"
    by (intro dec_fix_small) simp
  moreover have "rval (sgn m * q') x' = rval m (e - 1)"
  proof -
    have "rval (sgn m * q') x' = of_int (sgn m) * rval \<bar>m\<bar> (e - 1)" by (simp add: rval_sgn v')
    also have "\<dots> = rval (sgn m * \<bar>m\<bar>) (e - 1)" by (simp only: rval_sgn)
    also have "sgn m * \<bar>m\<bar> = m" by (rule mult_sgn_abs)
    finally show ?thesis .
  qed
  ultimately show ?thesis unfolding fx sg by simp
qed

lemma fin_div_approx:
  assumes c: "c \<noteq> 0" and n: "n \<noteq> 0" and small: "\<bar>c\<bar> < 10 ^ 28"
  shows "\<exists>c' e'. fin_div c e n = Fin c' e' \<and> \<bar>c'\<bar> < 10 ^ 28
          \<and> \<bar>rval c' e' - rval c e / of_int n\<bar> \<le> (7 / 10 ^ 28) * \<bar>rval c e / of_int n\<bar>"
proof -
  from fin_div_shape[OF c n small, of e] obtain s where
    s: "0 < s" and big: "10 ^ 28 * \<bar>n\<bar> \<le> \<bar>c\<bar> * 10 ^ s"
    and f: "fin_div c e n =
               (let q = (\<bar>c\<bar> * 10 ^ s) div \<bar>n\<bar>; r = (\<bar>c\<bar> * 10 ^ s) mod \<bar>n\<bar>;
                    qx = (if r \<noteq> 0 then (if q mod 5 = 0 then q + 1 else q, e - int s)
                          else strip_zeros q (e - int s) e)
                in dec_fix (sgn c * sgn n * fst qx) (snd qx))" by blast
  define N where "N = \<bar>c\<bar> * 10 ^ s"
  define b where "b = \<bar>n\<bar>"
  define q where "q = N div b"
  define r where "r = N mod b"
  define x where "x = e - int s"
  define \<sigma> where "\<sigma> = sgn c * sgn n"
  define u :: real where "u = 10 powi x"
  define Q :: real where "Q = of_int N / of_int b"
  define v where "v = rval c e / of_int n"
  have b0: "0 < b" using n by (simp add: b_def)
  have u0: "0 < u" by (simp add: u_def zero_less_power_int)
  have sig: "\<bar>of_int \<sigma> :: real\<bar> = 1" using c n by (simp add: \<sigma>_def sgn_if)
  have Nqr: "N = q * b + r" by (simp add: q_def r_def)
  have r_lt: "0 \<le> r" "r < b" using b0 by (simp_all add: r_def)
  have Qb: "Q * of_int b = of_int N" using b0 by (simp add: Q_def)
  have "of_int (10 ^ 28 * b) \<le> (of_int N :: real)"
    using big unfolding N_def b_def by (simp only: of_int_le_iff)
  then have "10 ^ 28 * of_int b \<le> Q * (of_int b :: real)" unfolding Qb by simp
  then have Qbig: "10 ^ 28 \<le> Q" using b0 by simp
  have "rval c e = rval (c * 10 ^ s) x"
    using rval_shift[of "int s" c e] by (simp add: x_def)
  moreover have "c * 10 ^ s = sgn c * N" by (simp add: N_def mult_sgn_abs mult.assoc[symmetric])
  ultimately have "rval c e = of_int (sgn c) * of_int N * u"
    by (simp add: rval_def u_def)
  moreover have "n = sgn n * b" by (simp add: b_def mult_sgn_abs)
  then have "(of_int n :: real) = of_int (sgn n) * of_int b"
    by (metis of_int_mult)
  moreover from n have "sgn n = 1 \<or> sgn n = - 1" by (auto simp: sgn_if)
  ultimately have v: "v = of_int \<sigma> * Q * u"
    using b0 by (auto simp: v_def \<sigma>_def Q_def field_simps)
  have absv: "\<bar>v\<bar> = Q * u" using sig u0 Qbig by (simp add: v abs_mult)
  have fq: "fin_div c e n =
      (let qx = (if r \<noteq> 0 then (if q mod 5 = 0 then q + 1 else q, x) else strip_zeros q x e)
       in dec_fix (\<sigma> * fst qx) (snd qx))"
    unfolding f Let_def N_def[symmetric] b_def[symmetric] q_def[symmetric] r_def[symmetric]
      x_def[symmetric] \<sigma>_def[symmetric] by simp
  obtain q' x' where qx: "(if r \<noteq> 0 then (if q mod 5 = 0 then q + 1 else q, x)
       else strip_zeros q x e) = (q', x')"
    by (cases "(if r \<noteq> 0 then (if q mod 5 = 0 then q + 1 else q, x) else strip_zeros q x e)") auto
  have fx: "fin_div c e n = dec_fix (\<sigma> * q') x'" unfolding fq qx Let_def by simp
  define t where "t = rval (\<sigma> * q') x'"
  have tv: "\<bar>t - v\<bar> \<le> (1 / 10 ^ 28) * \<bar>v\<bar>"
  proof (cases "r = 0")
    case True
    with qx have "strip_zeros q x e = (q', x')" by simp
    from strip_zeros_value[OF this] have "rval q' x' = rval q x" by simp
    moreover have "of_int q = Q" using True Nqr b0 by (simp add: Q_def)
    ultimately have "t = v" by (simp add: t_def rval_sgn v rval_def u_def)
    then show ?thesis by simp
  next
    case False
    with qx have x': "x' = x" and q': "q' = q \<or> q' = q + 1" by (auto split: if_splits)
    have "of_int N = of_int q * of_int b + (of_int r :: real)" by (simp add: Nqr)
    then have "Q = of_int q + of_int r / of_int b" using b0 by (simp add: Q_def field_simps)
    moreover have "0 \<le> (of_int r :: real) / of_int b" "(of_int r :: real) / of_int b \<le> 1"
      using r_lt b0 by simp_all
    ultimately have "\<bar>of_int q' - Q\<bar> \<le> 1" using q' by auto
    also have "1 \<le> (1 / 10 ^ 28) * Q" using Qbig by simp
    finally have "\<bar>of_int q' - Q\<bar> * u \<le> (1 / 10 ^ 28) * Q * u"
      using u0 by (intro mult_right_mono) simp_all
    moreover have "t - v = of_int \<sigma> * ((of_int q' - Q) * u)"
      by (simp add: t_def rval_def x' v u_def algebra_simps)
    then have "\<bar>t - v\<bar> = \<bar>of_int q' - Q\<bar> * u" using sig u0 by (simp add: abs_mult)
    ultimately show ?thesis unfolding absv by simp
  qed
  from dec_fix_rel[of "\<sigma> * q'" x'] obtain c' e' where
    d: "dec_fix (\<sigma> * q') x' = Fin c' e'" "\<bar>c'\<bar> < 10 ^ 28"
       "\<bar>rval c' e' - t\<bar> \<le> (5 / 10 ^ 28) * \<bar>t\<bar>" unfolding t_def by blast
  from rel_compose[OF d(3) tv]
  have "\<bar>rval c' e' - v\<bar> \<le> (5 / 10 ^ 28 + 1 / 10 ^ 28 + 5 / 10 ^ 28 * (1 / 10 ^ 28)) * \<bar>v\<bar>"
    by simp
  also have "\<dots> \<le> (7 / 10 ^ 28) * \<bar>v\<bar>"
    by (intro mult_right_mono) simp_all
  finally show ?thesis using d(1,2) fx unfolding v_def by simp
qed

lemma rval_cents: "rval c (- 2) = of_int c / 100"
  by (simp add: rval_def power_int_minus)

lemma twice_mean_test:
  assumes T: "\<bar>T\<bar> \<le> 10 ^ 26" and A: "\<bar>A\<bar> \<le> 10 ^ 26" and n: "0 < n"
  shows "ebind (dec_div_int (Fin T (- 2)) n) (\<lambda>m.
           ebind (dec_mul_int m 2) (\<lambda>twice. dec_gt (Fin A (- 2)) twice))
         = Inr (2 * T < A * n)"
proof -
  have Ts: "\<bar>T\<bar> < 10 ^ 28" using T by simp
  consider "T = 0" | "T \<noteq> 0" "2 * T = A * n" | "T \<noteq> 0" "2 * T \<noteq> A * n" by blast
  then show ?thesis
  proof cases
    case 1
    have "(0 < A) = (0 < A * n)" using n by (simp add: zero_less_mult_iff)
    then show ?thesis using n 1
      by (simp add: dec_fix_small dec_gt_def fin_less_def del: power_numeral)
  next
    case 2
    have n0: "n \<noteq> 0" using n by simp
    have m: "T * 10 = (5 * A) * n" using 2(2) by simp
    have ms: "\<bar>5 * A\<bar> < 10 ^ 28" using A by simp
    from fin_div_exact[OF 2(1) n0 Ts m ms, of "- 2"] obtain c' e' where
      d: "fin_div T (- 2) n = Fin c' e'" "rval c' e' = rval (5 * A) (- 3)" "\<bar>c'\<bar> \<le> \<bar>5 * A\<bar>"
      by auto
    have "\<bar>c' * 2\<bar> < 10 ^ 28" using d(3) A by simp
    then have fx: "dec_fix (c' * 2) e' = Fin (c' * 2) e'" by (rule dec_fix_small)
    have "rval (c' * 2) e' = 2 * rval (5 * A) (- 3)" using d(2) by (simp add: rval_def)
    also have "\<dots> = rval A (- 2)" by (simp add: rval_def power_int_minus)
    finally have "\<not> fin_less (c' * 2) e' A (- 2)" by (simp add: fin_less_rval)
    then show ?thesis using 2 n0 d(1) fx by (simp add: dec_gt_def)
  next
    case 3
    have n0: "n \<noteq> 0" using n by simp
    define v where "v = rval T (- 2) / of_int n"
    from fin_div_approx[OF 3(1) n0 Ts, of "- 2"] obtain c' e' where
      d: "fin_div T (- 2) n = Fin c' e'"
         "\<bar>rval c' e' - v\<bar> \<le> (7 / 10 ^ 28) * \<bar>v\<bar>" unfolding v_def by blast
    from dec_fix_rel[of "c' * 2" e'] obtain c'' e'' where
      f: "dec_fix (c' * 2) e' = Fin c'' e''"
         "\<bar>rval c'' e'' - rval (c' * 2) e'\<bar> \<le> (5 / 10 ^ 28) * \<bar>rval (c' * 2) e'\<bar>" by blast
    define w where "w = rval c'' e''"
    have t: "rval (c' * 2) e' = 2 * rval c' e'" by (simp add: rval_def)
    have "2 * rval c' e' - 2 * v = 2 * (rval c' e' - v)" by simp
    then have "\<bar>2 * rval c' e' - 2 * v\<bar> = 2 * \<bar>rval c' e' - v\<bar>"
      by (simp only: abs_mult abs_numeral)
    moreover have "(7 / 10 ^ 28) * \<bar>2 * v\<bar> = 2 * ((7 / 10 ^ 28) * \<bar>v\<bar>)"
      by (simp only: abs_mult abs_numeral mult.left_commute)
    ultimately have "\<bar>2 * rval c' e' - 2 * v\<bar> \<le> (7 / 10 ^ 28) * \<bar>2 * v\<bar>"
      using d(2) by linarith
    from rel_compose[OF f(2)[unfolded t] this]
    have "\<bar>w - 2 * v\<bar> \<le> (5 / 10 ^ 28 + 7 / 10 ^ 28 + 5 / 10 ^ 28 * (7 / 10 ^ 28)) * \<bar>2 * v\<bar>"
      by (simp add: w_def)
    also have "\<dots> \<le> (13 / 10 ^ 28) * \<bar>2 * v\<bar>" by (intro mult_right_mono) simp_all
    finally have wv: "\<bar>w - 2 * v\<bar> \<le> (13 / 10 ^ 28) * \<bar>2 * v\<bar>" .
    define K :: real where "K = 100 * of_int n"
    have K0: "0 < K" using n by (simp add: K_def)
    have v2: "2 * v = of_int (2 * T) / K" by (simp add: v_def rval_cents K_def)
    have "\<bar>2 * T\<bar> \<le> 2 * 10 ^ 26" using T by simp
    then have "of_int \<bar>2 * T\<bar> \<le> (of_int (2 * 10 ^ 26) :: real)" by (simp only: of_int_le_iff)
    then have "\<bar>of_int (2 * T) :: real\<bar> \<le> 2 * 10 ^ 26" by simp
    then have "\<bar>of_int (2 * T) :: real\<bar> / K \<le> (2 * 10 ^ 26) / K"
      using K0 by (intro divide_right_mono) simp_all
    then have "\<bar>2 * v\<bar> \<le> (2 * 10 ^ 26) / K" unfolding v2 using K0 by (simp only: abs_divide abs_of_pos)
    then have "(13 / 10 ^ 28) * \<bar>2 * v\<bar> \<le> (13 / 10 ^ 28) * ((2 * 10 ^ 26) / K)"
      by (intro mult_left_mono) simp_all
    also have "\<dots> < 1 / K" using K0 by (simp add: field_simps)
    finally have err: "\<bar>w - 2 * v\<bar> < 1 / K" using wv by simp
    have "rval A (- 2) = of_int (A * n) / K" using n by (simp add: rval_cents K_def)
    then have gap: "rval A (- 2) - 2 * v = of_int (A * n - 2 * T) / K"
      unfolding v2 by (simp only: of_int_diff diff_divide_distrib)
    have less: "fin_less c'' e'' A (- 2) = (w < rval A (- 2))" by (simp add: fin_less_rval w_def)
    have "(w < rval A (- 2)) = (2 * T < A * n)"
    proof (cases "2 * T < A * n")
      case True
      then have "1 \<le> A * n - 2 * T" by simp
      then have "(1::real) \<le> of_int (A * n - 2 * T)" by (metis of_int_le_iff of_int_1)
      then have "1 / K \<le> rval A (- 2) - 2 * v"
        unfolding gap using K0 by (intro divide_right_mono) simp_all
      with err True show ?thesis by linarith
    next
      case False
      with 3(2) have "A * n - 2 * T \<le> - 1" by simp
      then have "of_int (A * n - 2 * T) \<le> (- 1::real)"
        by (metis of_int_le_iff of_int_minus of_int_1)
      then have "rval A (- 2) - 2 * v \<le> - 1 / K"
        unfolding gap using K0 by (intro divide_right_mono) simp_all
      with err False show ?thesis by linarith
    qed
    with less show ?thesis using 3 n0 d(1) f(1) by (simp add: dec_gt_def)
  qed
qed

lemma has_cents_amount: "has_cents ex \<Longrightarrow> amount_of ex = Inr (Fin (amount_cents ex) (- 2))"
proof -
  assume h: "has_cents ex"
  then obtain a where a: "amount_of ex = Inr a" "is_cents a"
    by (cases "amount_of ex") (auto simp: has_cents_def)
  from a(2) obtain c where "a = Fin c (- 2)" by (cases a) auto
  with a(1) show ?thesis by (simp add: amount_cents_def)
qed

lemma dec_sum_from_cents:
  "list_all has_cents xs \<Longrightarrow> \<bar>S\<bar> + sum_list (map (\<lambda>ex. \<bar>amount_cents ex\<bar>) xs) < 10 ^ 28
     \<Longrightarrow> dec_sum_from (Fin S (- 2)) xs = Inr (Fin (S + sum_list (map amount_cents xs)) (- 2))"
proof (induction xs arbitrary: S)
  case Nil
  then show ?case by simp
next
  case (Cons ex xs)
  from Cons.prems(1) have h: "has_cents ex" "list_all has_cents xs" by simp_all
  define a where "a = amount_cents ex"
  have nn: "0 \<le> sum_list (map (\<lambda>ex. \<bar>amount_cents ex\<bar>) xs)" by (rule sum_list_nonneg) auto
  from Cons.prems(2) have b: "\<bar>S\<bar> + \<bar>a\<bar> + sum_list (map (\<lambda>ex. \<bar>amount_cents ex\<bar>) xs) < 10 ^ 28"
    by (simp add: a_def)
  then have 1: "\<bar>S + a\<bar> < 10 ^ 28" using nn by linarith
  from b have 2: "\<bar>S + a\<bar> + sum_list (map (\<lambda>ex. \<bar>amount_cents ex\<bar>) xs) < 10 ^ 28" by linarith
  from Cons.IH[OF h(2) 2] dec_add_cents[OF 1] has_cents_amount[OF h(1)]
  show ?case by (simp add: a_def add.assoc)
qed

lemma sum_abs_filter:
  "sum_list (map (\<lambda>ex. \<bar>amount_cents ex\<bar>) (filter P xs))
     \<le> sum_list (map (\<lambda>ex. \<bar>amount_cents ex\<bar>) xs)"
  by (induction xs) auto

lemma abs_le_sum_abs:
  "ex \<in> set xs \<Longrightarrow> \<bar>amount_cents ex\<bar> \<le> sum_list (map (\<lambda>ex. \<bar>amount_cents ex\<bar>) xs)"
proof (induction xs)
  case Nil
  then show ?case by simp
next
  case (Cons x xs)
  have "0 \<le> sum_list (map (\<lambda>ex. \<bar>amount_cents ex\<bar>) xs)" by (rule sum_list_nonneg) auto
  with Cons show ?case by auto
qed

lemma abs_sum_cents:
  "\<bar>sum_list (map amount_cents xs)\<bar> \<le> sum_list (map (\<lambda>ex. \<bar>amount_cents ex\<bar>) xs)"
  by (induction xs) auto

section \<open>The unusual-expense test on amounts in hundredths\<close>

text \<open>
  When every amount of the list is a number of hundredths and the absolute amounts sum
  to at most \<open>10^26\<close> hundredths, the rounding of the \<open>Decimal\<close> quotient and product cannot
  change the outcome of the test: an expense is flagged exactly when its amount times
  the number of expenses of its category exceeds twice their exact sum, that is when the
  amount is strictly greater than twice the exact average.
\<close>

lemma exceeds_twice_mean_exact:
  assumes cents: "list_all has_cents expenses"
    and bound: "sum_list (map (\<lambda>ex. \<bar>amount_cents ex\<bar>) expenses) \<le> 10 ^ 26"
    and ex: "ex \<in> set expenses"
    and cat: "map_of ex ''category'' = Some cat"
  shows "exceeds_twice_mean expenses ex
           = Inr (2 * category_cents expenses cat < amount_cents ex * category_count expenses cat)"
proof -
  define ys where "ys = filter (in_category cat) expenses"
  have ys: "list_all has_cents ys" using cents by (simp add: ys_def list_all_iff)
  have sb: "sum_list (map (\<lambda>ex. \<bar>amount_cents ex\<bar>) ys) \<le> 10 ^ 26"
    using sum_abs_filter[of "in_category cat" expenses] bound by (simp add: ys_def)
  then have "\<bar>0\<bar> + sum_list (map (\<lambda>ex. \<bar>amount_cents ex\<bar>) ys) < 10 ^ 28" by simp
  from dec_sum_from_cents[OF ys this]
  have s: "dec_sum_from (Fin 0 (- 2)) ys = Inr (Fin (sum_list (map amount_cents ys)) (- 2))" by simp
  have T: "\<bar>sum_list (map amount_cents ys)\<bar> \<le> 10 ^ 26" using abs_sum_cents[of ys] sb by linarith
  have A: "\<bar>amount_cents ex\<bar> \<le> 10 ^ 26" using abs_le_sum_abs[OF ex] bound by linarith
  have "ex \<in> set ys" using ex cat by (simp add: ys_def in_category_def)
  then have n: "0 < int (length ys)" by (cases ys) auto
  have h: "has_cents ex" using cents ex by (simp add: list_all_iff)
  have g: "getitem ex ''category'' = Inr cat" using cat by (simp add: getitem_def)
  have "exceeds_twice_mean expenses ex
          = ebind (dec_div_int (Fin (sum_list (map amount_cents ys)) (- 2)) (int (length ys))) (\<lambda>m.
              ebind (dec_mul_int m 2) (\<lambda>twice. dec_gt (Fin (amount_cents ex) (- 2)) twice))"
    using s by (simp add: exceeds_twice_mean_def category_mean_def has_cents_amount[OF h] g ys_def)
  also note twice_mean_test[OF T A n]
  finally show ?thesis by (simp add: category_cents_def category_count_def ys_def)
qed

end
